theory Spec2Isabelle
  imports Complex_Main "HOL-Library.Word" "HOL-Library.Multiset"
begin

unbundle bit_operations_syntax

section \<open>Machine types\<close>

type_synonym u8 = "8 word"
type_synonym u32 = "32 word"
type_synonym u64 = "64 word"

subsection \<open>The C++ type double\<close>

text \<open>
  A \<open>double\<close> is an IEEE 754 binary64 value: a finite value, one of the two infinities, or
  a NaN. The result of an addition, subtraction, multiplication or division of finite
  values is the exact result rounded to the nearest binary64 value, ties to the even
  significand (the default rounding mode); a result that rounds beyond the largest finite
  value overflows to an infinity, and a tiny result rounds into the subnormal range or to
  zero. Each operation of the source rounds by itself (no fused multiply-add). Negation,
  absolute value and the comparisons are exact, and comparisons with NaN are false. There
  is a single zero, read as \<open>+0\<close> where a sign is needed, and a single NaN.
\<close>

datatype double = Finite real | PInf | NInf | NaN

text \<open>\<open>std::numeric_limits<double>::max()\<close>, the largest finite binary64 value.\<close>

definition DBL_MAX :: real where
  "DBL_MAX = (2 ^ 53 - 1) * 2 ^ 971"

text \<open>Rounding a non-negative real to an integer, ties to the even one.\<close>

definition round_half_even :: "real \<Rightarrow> int" where
  "round_half_even y =
     (let f = \<lfloor>y\<rfloor>; d = y - of_int f
      in if d < 1 / 2 then f else if 1 / 2 < d then f + 1
         else if even f then f else f + 1)"

text \<open>
  The binary exponent used for a positive real \<open>a\<close>: the largest \<open>e\<close> from \<open>-1022\<close> to
  \<open>1023\<close> with \<open>2 ^ e \<le> a\<close>, and \<open>-1022\<close> (the subnormal range) when there is none. It is
  found by a scan from \<open>1023\<close> downwards.
\<close>

fun scan_exponent :: "real \<Rightarrow> nat \<Rightarrow> int" where
  "scan_exponent a 0 = - 1022"
| "scan_exponent a (Suc n) =
     (if 2 powi (int (Suc n) - 1022) \<le> a then int (Suc n) - 1022 else scan_exponent a n)"

definition binary_exponent :: "real \<Rightarrow> int" where
  "binary_exponent a = scan_exponent a 2045"

text \<open>
  Rounding a real to binary64: the significand has 53 bits, so the spacing of the values
  at binary exponent \<open>e\<close> is \<open>2 ^ (e - 52)\<close>. A decimal literal of the source such as
  \<open>0.0002\<close> denotes \<open>round_double (2 / 10000)\<close>.
\<close>

definition round_double :: "real \<Rightarrow> double" where
  "round_double x =
     (if x = 0 then Finite 0
      else
        (let a = \<bar>x\<bar>;
             q = 2 powi (binary_exponent a - 52);
             r = of_int (round_half_even (a / q)) * q
         in if DBL_MAX < r then (if 0 < x then PInf else NInf)
            else Finite (if 0 < x then r else - r)))"

instantiation double :: "{zero,one,uminus,plus,minus,times,inverse,abs,ord}"
begin

definition zero_double :: double where
  "zero_double = Finite 0"

definition one_double :: double where
  "one_double = Finite 1"

fun uminus_double :: "double \<Rightarrow> double" where
  "uminus_double (Finite a) = Finite (- a)"
| "uminus_double PInf = NInf"
| "uminus_double NInf = PInf"
| "uminus_double NaN = NaN"

fun plus_double :: "double \<Rightarrow> double \<Rightarrow> double" where
  "plus_double (Finite a) (Finite b) = round_double (a + b)"
| "plus_double NaN _ = NaN"
| "plus_double _ NaN = NaN"
| "plus_double PInf NInf = NaN"
| "plus_double NInf PInf = NaN"
| "plus_double PInf _ = PInf"
| "plus_double _ PInf = PInf"
| "plus_double NInf _ = NInf"
| "plus_double _ NInf = NInf"

definition minus_double :: "double \<Rightarrow> double \<Rightarrow> double" where
  "minus_double x y = x + (- y)"

fun times_double :: "double \<Rightarrow> double \<Rightarrow> double" where
  "times_double (Finite a) (Finite b) = round_double (a * b)"
| "times_double NaN _ = NaN"
| "times_double _ NaN = NaN"
| "times_double PInf (Finite b) = (if b = 0 then NaN else if 0 < b then PInf else NInf)"
| "times_double NInf (Finite b) = (if b = 0 then NaN else if 0 < b then NInf else PInf)"
| "times_double (Finite a) PInf = (if a = 0 then NaN else if 0 < a then PInf else NInf)"
| "times_double (Finite a) NInf = (if a = 0 then NaN else if 0 < a then NInf else PInf)"
| "times_double PInf PInf = PInf"
| "times_double PInf NInf = NInf"
| "times_double NInf PInf = NInf"
| "times_double NInf NInf = PInf"

fun divide_double :: "double \<Rightarrow> double \<Rightarrow> double" where
  "divide_double (Finite a) (Finite b) =
     (if b = 0 then (if a = 0 then NaN else if 0 < a then PInf else NInf)
      else round_double (a / b))"
| "divide_double NaN _ = NaN"
| "divide_double _ NaN = NaN"
| "divide_double (Finite a) PInf = Finite 0"
| "divide_double (Finite a) NInf = Finite 0"
| "divide_double PInf (Finite b) = (if 0 \<le> b then PInf else NInf)"
| "divide_double NInf (Finite b) = (if 0 \<le> b then NInf else PInf)"
| "divide_double PInf PInf = NaN"
| "divide_double PInf NInf = NaN"
| "divide_double NInf PInf = NaN"
| "divide_double NInf NInf = NaN"

fun inverse_double :: "double \<Rightarrow> double" where
  "inverse_double (Finite a) = (if a = 0 then PInf else round_double (1 / a))"
| "inverse_double PInf = Finite 0"
| "inverse_double NInf = Finite 0"
| "inverse_double NaN = NaN"

fun abs_double :: "double \<Rightarrow> double" where
  "abs_double (Finite a) = Finite \<bar>a\<bar>"
| "abs_double PInf = PInf"
| "abs_double NInf = PInf"
| "abs_double NaN = NaN"

fun less_double :: "double \<Rightarrow> double \<Rightarrow> bool" where
  "less_double (Finite a) (Finite b) = (a < b)"
| "less_double (Finite a) PInf = True"
| "less_double NInf (Finite b) = True"
| "less_double NInf PInf = True"
| "less_double _ _ = False"

definition less_eq_double :: "double \<Rightarrow> double \<Rightarrow> bool" where
  "less_eq_double x y = (x \<noteq> NaN \<and> y \<noteq> NaN \<and> (x < y \<or> x = y))"

instance ..

end

section \<open>Order book (order\_book.h, order\_book.cpp)\<close>

record PriceLevel =
  price :: double
  quantity :: double
  order_count :: u32

text \<open>\<open>PriceLevel::reset\<close>\<close>

definition reset :: "PriceLevel \<Rightarrow> PriceLevel" where
  "reset l = l\<lparr>price := Finite 0, quantity := Finite 0, order_count := 0\<rparr>"

definition MAX_DEPTH :: nat where
  "MAX_DEPTH = 10"

record Book =
  levels :: "PriceLevel list"
  depth :: u32
  sequence :: u64

record OrderBook =
  symbol :: string
  bids :: Book
  asks :: Book

text \<open>
  The default member initialisers of \<open>PriceLevel\<close> and \<open>Book\<close>, followed by the
  constructor body, which resets every level of both sides.
\<close>

definition PriceLevel_init :: PriceLevel where
  "PriceLevel_init = \<lparr>price = Finite 0, quantity = Finite 0, order_count = 0\<rparr>"

definition Book_init :: Book where
  "Book_init = \<lparr>levels = replicate MAX_DEPTH PriceLevel_init, depth = 0, sequence = 0\<rparr>"

definition OrderBook_new :: "string \<Rightarrow> OrderBook" where
  "OrderBook_new name =
     \<lparr>symbol = name,
      bids = Book_init\<lparr>levels := map reset (levels Book_init)\<rparr>,
      asks = Book_init\<lparr>levels := map reset (levels Book_init)\<rparr>\<rparr>"

text \<open>
  \<open>OrderBook::update_level\<close>: writes price and quantity of the level (the order count is
  not written), raises the depth when the level is at or beyond it, increments the
  sequence. The level is a \<open>size_t\<close>; the callers only pass levels below \<open>MAX_DEPTH\<close>.
\<close>

definition update_level :: "Book \<Rightarrow> nat \<Rightarrow> double \<Rightarrow> double \<Rightarrow> Book" where
  "update_level book level p q =
     (let price_level = (levels book ! level)\<lparr>price := p, quantity := q\<rparr>;
          book1 = book\<lparr>levels := (levels book)[level := price_level]\<rparr>;
          book2 = (if unat (depth book1) \<le> level
                   then book1\<lparr>depth := of_nat (level + 1)\<rparr> else book1)
      in book2\<lparr>sequence := sequence book2 + 1\<rparr>)"

definition update_bid :: "OrderBook \<Rightarrow> nat \<Rightarrow> double \<Rightarrow> double \<Rightarrow> OrderBook" where
  "update_bid ob level p q =
     (if MAX_DEPTH \<le> level then ob else ob\<lparr>bids := update_level (bids ob) level p q\<rparr>)"

definition update_ask :: "OrderBook \<Rightarrow> nat \<Rightarrow> double \<Rightarrow> double \<Rightarrow> OrderBook" where
  "update_ask ob level p q =
     (if MAX_DEPTH \<le> level then ob else ob\<lparr>asks := update_level (asks ob) level p q\<rparr>)"

record Snapshot =
  snap_bids :: "PriceLevel list"
  snap_asks :: "PriceLevel list"
  bid_depth :: u32
  ask_depth :: u32
  bid_sequence :: u64
  ask_sequence :: u64
  timestamp :: u64

text \<open>
  \<open>OrderBook::get_snapshot\<close>; the value of \<open>Timestamp::now()\<close> is the argument \<open>now\<close>.
  The copy loop reads the first \<open>MAX_DEPTH\<close> levels of each side.
\<close>

definition get_snapshot :: "OrderBook \<Rightarrow> u64 \<Rightarrow> Snapshot" where
  "get_snapshot ob now =
     \<lparr>snap_bids = map (\<lambda>i. levels (bids ob) ! i) [0..<MAX_DEPTH],
      snap_asks = map (\<lambda>i. levels (asks ob) ! i) [0..<MAX_DEPTH],
      bid_depth = depth (bids ob),
      ask_depth = depth (asks ob),
      bid_sequence = sequence (bids ob),
      ask_sequence = sequence (asks ob),
      timestamp = now\<rparr>"

definition best_bid :: "Snapshot \<Rightarrow> double" where
  "best_bid s = (if 0 < bid_depth s then price (snap_bids s ! 0) else Finite 0)"

definition best_ask :: "Snapshot \<Rightarrow> double" where
  "best_ask s = (if 0 < ask_depth s then price (snap_asks s ! 0) else Finite DBL_MAX)"

definition mid_price :: "Snapshot \<Rightarrow> double" where
  "mid_price s = (best_bid s + best_ask s) / Finite 2"

definition spread :: "Snapshot \<Rightarrow> double" where
  "spread s = best_ask s - best_bid s"

definition spread_bps :: "Snapshot \<Rightarrow> double" where
  "spread_bps s =
     (let mid = mid_price s
      in if 0 < mid then (spread s / mid) * Finite 10000 else Finite 0)"

text \<open>The books that exist at run time: a new book, updated any number of times.\<close>

inductive reachable_book :: "OrderBook \<Rightarrow> bool" where
  rb_new: "reachable_book (OrderBook_new name)"
| rb_bid: "reachable_book ob \<Longrightarrow> reachable_book (update_bid ob level p q)"
| rb_ask: "reachable_book ob \<Longrightarrow> reachable_book (update_ask ob level p q)"

definition book_inv :: "Book \<Rightarrow> bool" where
  "book_inv b = (length (levels b) = MAX_DEPTH \<and> list_all (\<lambda>l. order_count l = 0) (levels b))"

section \<open>SPSC ring (circular\_buffer.h, CircularBuffer)\<close>

text \<open>
  \<open>SIZE\<close> is the template argument \<open>Capacity\<close>, a \<open>size_t\<close>. The elements of the array
  are default-initialised; \<open>d\<close> stands for that initial element value. The atomic loads
  and stores are read sequentially (one thread).
\<close>

record 'a CircularBuffer =
  head :: u64
  tail :: u64
  buffer :: "'a list"

definition CircularBuffer_new :: "u64 \<Rightarrow> 'a \<Rightarrow> 'a CircularBuffer" where
  "CircularBuffer_new SIZE d = \<lparr>head = 0, tail = 0, buffer = replicate (unat SIZE) d\<rparr>"

definition push :: "u64 \<Rightarrow> 'a CircularBuffer \<Rightarrow> 'a \<Rightarrow> bool \<times> 'a CircularBuffer" where
  "push SIZE s item =
     (let current_tail = tail s;
          next_tail = (current_tail + 1) AND (SIZE - 1)
      in if next_tail = head s then (False, s)
         else (True, s\<lparr>buffer := (buffer s)[unat current_tail := item], tail := next_tail\<rparr>))"

text \<open>\<open>pop\<close> returns \<open>Some item\<close> for \<open>true\<close> with the out-parameter set, \<open>None\<close> for \<open>false\<close>.\<close>

definition pop :: "u64 \<Rightarrow> 'a CircularBuffer \<Rightarrow> 'a option \<times> 'a CircularBuffer" where
  "pop SIZE s =
     (let current_head = head s
      in if current_head = tail s then (None, s)
         else (Some (buffer s ! unat current_head),
               s\<lparr>head := (current_head + 1) AND (SIZE - 1)\<rparr>))"

definition empty_spsc :: "'a CircularBuffer \<Rightarrow> bool" where
  "empty_spsc s = (head s = tail s)"

definition size_spsc :: "u64 \<Rightarrow> 'a CircularBuffer \<Rightarrow> u64" where
  "size_spsc SIZE s = (tail s - head s) AND (SIZE - 1)"

text \<open>
  A sequential execution is a list of calls; it yields the list of their outcomes, in
  order, and the final ring.
\<close>

datatype 'a ring_op = Push 'a | Pop

datatype 'a ring_event = Pushed 'a bool | Popped "'a option"

fun run :: "u64 \<Rightarrow> 'a CircularBuffer \<Rightarrow> 'a ring_op list
    \<Rightarrow> 'a ring_event list \<times> 'a CircularBuffer" where
  "run SIZE s [] = ([], s)"
| "run SIZE s (Push x # ops) =
     (case push SIZE s x of (ok, s1) \<Rightarrow>
        (case run SIZE s1 ops of (evs, s2) \<Rightarrow> (Pushed x ok # evs, s2)))"
| "run SIZE s (Pop # ops) =
     (case pop SIZE s of (r, s1) \<Rightarrow>
        (case run SIZE s1 ops of (evs, s2) \<Rightarrow> (Popped r # evs, s2)))"

text \<open>The values of the successful pushes, and the values returned by the successful pops.\<close>

fun pushed :: "'a ring_event list \<Rightarrow> 'a list" where
  "pushed [] = []"
| "pushed (Pushed x ok # evs) = (if ok then x # pushed evs else pushed evs)"
| "pushed (Popped r # evs) = pushed evs"

fun popped :: "'a ring_event list \<Rightarrow> 'a list" where
  "popped [] = []"
| "popped (Pushed x ok # evs) = popped evs"
| "popped (Popped r # evs) = (case r of Some y \<Rightarrow> y # popped evs | None \<Rightarrow> popped evs)"

text \<open>
  The elements held by a ring whose indices are below \<open>N\<close>: the slots from \<open>head\<close> up to
  \<open>tail\<close>, cyclically.
\<close>

definition contents :: "nat \<Rightarrow> 'a CircularBuffer \<Rightarrow> 'a list" where
  "contents N s =
     map (\<lambda>i. buffer s ! ((unat (head s) + i) mod N))
       [0..<(unat (tail s) + N - unat (head s)) mod N]"

definition ring_inv :: "nat \<Rightarrow> 'a CircularBuffer \<Rightarrow> bool" where
  "ring_inv N s = (unat (head s) < N \<and> unat (tail s) < N \<and> length (buffer s) = N)"

section \<open>MPSC ring (circular\_buffer.h, MPSCCircularBuffer)\<close>

text \<open>
  Each slot holds a sequence number and a value. The operations are read sequentially
  (one thread at a time); \<open>compare_exchange_weak\<close> succeeds exactly when the counter holds
  the expected value, and otherwise reloads it (a spurious failure is not modelled). The
  retry loops have no bound in the source, so they are partial functions: \<open>None\<close> stands
  for a call that does not return.
\<close>

record 'a MPSC_Entry =
  entry_sequence :: u64
  entry_data :: 'a

record 'a MPSCCircularBuffer =
  mpsc_head :: u64
  mpsc_tail :: u64
  mpsc_buffer :: "'a MPSC_Entry list"

text \<open>The constructor stores 0 in the sequence of every slot.\<close>

definition MPSCCircularBuffer_new :: "u64 \<Rightarrow> 'a \<Rightarrow> 'a MPSCCircularBuffer" where
  "MPSCCircularBuffer_new SIZE d =
     \<lparr>mpsc_head = 0, mpsc_tail = 0,
      mpsc_buffer = map (\<lambda>entry. entry\<lparr>entry_sequence := 0\<rparr>)
                      (replicate (unat SIZE) \<lparr>entry_sequence = 0, entry_data = d\<rparr>)\<rparr>"

text \<open>\<open>diff\<close>: the difference of the two counters, read as a signed 64-bit value.\<close>

definition seq_diff :: "u64 \<Rightarrow> u64 \<Rightarrow> int" where
  "seq_diff a b = sint (a - b)"

partial_function (option) mpsc_push_loop ::
    "u64 \<Rightarrow> 'a MPSCCircularBuffer \<Rightarrow> 'a \<Rightarrow> u64 \<Rightarrow> (bool \<times> 'a MPSCCircularBuffer) option" where
  "mpsc_push_loop SIZE s item t =
     (if seq_diff (entry_sequence (mpsc_buffer s ! unat (t AND (SIZE - 1)))) t = 0 then
        (if mpsc_tail s = t then
           Some (True,
             s\<lparr>mpsc_tail := t + 1,
                mpsc_buffer := (mpsc_buffer s)[unat (t AND (SIZE - 1)) :=
                  \<lparr>entry_sequence = t + 1, entry_data = item\<rparr>]\<rparr>)
         else mpsc_push_loop SIZE s item (mpsc_tail s))
      else if seq_diff (entry_sequence (mpsc_buffer s ! unat (t AND (SIZE - 1)))) t < 0 then
        Some (False, s)
      else mpsc_push_loop SIZE s item (mpsc_tail s))"

definition mpsc_push ::
    "u64 \<Rightarrow> 'a MPSCCircularBuffer \<Rightarrow> 'a \<Rightarrow> (bool \<times> 'a MPSCCircularBuffer) option" where
  "mpsc_push SIZE s item = mpsc_push_loop SIZE s item (mpsc_tail s)"

partial_function (option) mpsc_pop_loop ::
    "u64 \<Rightarrow> 'a MPSCCircularBuffer \<Rightarrow> u64 \<Rightarrow> ('a option \<times> 'a MPSCCircularBuffer) option" where
  "mpsc_pop_loop SIZE s h =
     (if seq_diff (entry_sequence (mpsc_buffer s ! unat (h AND (SIZE - 1)))) (h + 1) = 0 then
        (if mpsc_head s = h then
           Some (Some (entry_data (mpsc_buffer s ! unat (h AND (SIZE - 1)))),
             s\<lparr>mpsc_head := h + 1,
                mpsc_buffer := (mpsc_buffer s)[unat (h AND (SIZE - 1)) :=
                  (mpsc_buffer s ! unat (h AND (SIZE - 1)))\<lparr>entry_sequence := h + SIZE\<rparr>]\<rparr>)
         else mpsc_pop_loop SIZE s (mpsc_head s))
      else if seq_diff (entry_sequence (mpsc_buffer s ! unat (h AND (SIZE - 1)))) (h + 1) < 0
      then Some (None, s)
      else mpsc_pop_loop SIZE s (mpsc_head s))"

definition mpsc_pop ::
    "u64 \<Rightarrow> 'a MPSCCircularBuffer \<Rightarrow> ('a option \<times> 'a MPSCCircularBuffer) option" where
  "mpsc_pop SIZE s = mpsc_pop_loop SIZE s (mpsc_head s)"

section \<open>Symbol hash map (hashmap.h, LockFreeHashMap with C-string keys)\<close>

text \<open>
  A key passed as \<open>const char*\<close> is the list of the characters before the terminating
  NUL. The key field of an entry is a \<open>char[16]\<close>, zeroed at construction and written only
  by \<open>strncpy\<close> with a bound of 15, so its last byte stays NUL; the field is modelled by
  the C string it holds. The table is read sequentially (one thread):
  \<open>compare_exchange_strong\<close> on the hash succeeds exactly when the slot is \<open>EMPTY\<close>.
\<close>

record 'v Map_Entry =
  entry_hash :: u64
  entry_key :: string
  entry_value :: 'v

definition EMPTY :: u64 where
  "EMPTY = 0"

definition TOMBSTONE :: u64 where
  "TOMBSTONE = 1"

definition MAX_KEY_LEN :: nat where
  "MAX_KEY_LEN = 16"

definition FNV_OFFSET :: u64 where
  "FNV_OFFSET = 14695981039346656037"

definition FNV_PRIME :: u64 where
  "FNV_PRIME = 1099511628211"

text \<open>
  \<open>static_cast<uint64_t>(*str)\<close>: the \<open>char\<close> is converted as a signed 8-bit value (as on
  x86-64); for ASCII characters the result is the character code.
\<close>

definition char_to_u64 :: "char \<Rightarrow> u64" where
  "char_to_u64 c = scast (of_char c :: u8)"

fun hash_string_loop :: "u64 \<Rightarrow> string \<Rightarrow> u64" where
  "hash_string_loop h [] = h"
| "hash_string_loop h (c # str) = hash_string_loop ((h XOR char_to_u64 c) * FNV_PRIME) str"

definition hash_string :: "string \<Rightarrow> u64" where
  "hash_string str = hash_string_loop FNV_OFFSET str"

text \<open>The hash of a key, with the two reserved values remapped to 2.\<close>

definition key_hash :: "string \<Rightarrow> u64" where
  "key_hash k = (let h = hash_string k in if h = EMPTY \<or> h = TOMBSTONE then 2 else h)"

text \<open>\<open>strncpy(entry.key, key, n)\<close> into a zeroed key field: the first \<open>n\<close> characters.\<close>

definition strncpy :: "string \<Rightarrow> nat \<Rightarrow> string" where
  "strncpy src n = take n src"

text \<open>
  The constructor stores \<open>EMPTY\<close> in every hash; keys are zeroed and values are
  value-initialised (\<open>v0\<close>).
\<close>

definition LockFreeHashMap_new :: "u64 \<Rightarrow> 'v \<Rightarrow> 'v Map_Entry list" where
  "LockFreeHashMap_new SIZE v0 =
     map (\<lambda>entry. entry\<lparr>entry_hash := EMPTY\<rparr>)
       (replicate (unat SIZE) \<lparr>entry_hash = 0, entry_key = [], entry_value = v0\<rparr>)"

text \<open>
  The probe loops run at most \<open>SIZE\<close> times; the last argument counts the iterations
  that remain.
\<close>

fun insert_loop :: "u64 \<Rightarrow> 'v Map_Entry list \<Rightarrow> u64 \<Rightarrow> string \<Rightarrow> 'v \<Rightarrow> u64 \<Rightarrow> nat
    \<Rightarrow> bool \<times> 'v Map_Entry list" where
  "insert_loop SIZE entries h k v idx 0 = (False, entries)"
| "insert_loop SIZE entries h k v idx (Suc n) =
     (if entry_hash (entries ! unat idx) = EMPTY then
        (True, entries[unat idx :=
           \<lparr>entry_hash = h, entry_key = strncpy k (MAX_KEY_LEN - 1), entry_value = v\<rparr>])
      else if entry_hash (entries ! unat idx) = h \<and> entry_key (entries ! unat idx) = k then
        (True, entries[unat idx := (entries ! unat idx)\<lparr>entry_value := v\<rparr>])
      else insert_loop SIZE entries h k v ((idx + 1) AND (SIZE - 1)) n)"

definition insert_str :: "u64 \<Rightarrow> 'v Map_Entry list \<Rightarrow> string \<Rightarrow> 'v
    \<Rightarrow> bool \<times> 'v Map_Entry list" where
  "insert_str SIZE entries k v =
     insert_loop SIZE entries (key_hash k) k v (key_hash k AND (SIZE - 1)) (unat SIZE)"

text \<open>
  \<open>find\<close> returns a pointer to the value field of a slot, or null: here the index of the
  slot, or \<open>None\<close>.
\<close>

fun find_loop :: "u64 \<Rightarrow> 'v Map_Entry list \<Rightarrow> u64 \<Rightarrow> string \<Rightarrow> u64 \<Rightarrow> nat \<Rightarrow> nat option" where
  "find_loop SIZE entries h k idx 0 = None"
| "find_loop SIZE entries h k idx (Suc n) =
     (if entry_hash (entries ! unat idx) = EMPTY then None
      else if entry_hash (entries ! unat idx) = h \<and> entry_key (entries ! unat idx) = k then
        Some (unat idx)
      else find_loop SIZE entries h k ((idx + 1) AND (SIZE - 1)) n)"

definition find_str :: "u64 \<Rightarrow> 'v Map_Entry list \<Rightarrow> string \<Rightarrow> nat option" where
  "find_str SIZE entries k =
     find_loop SIZE entries (key_hash k) k (key_hash k AND (SIZE - 1)) (unat SIZE)"

section \<open>Slab object pool (memory\_pool.h, MemoryPool)\<close>

text \<open>
  \<open>PoolSize\<close> is the template argument. A pointer into the slab is the index of its slot;
  \<open>None\<close> is the null pointer. A slot of the storage holds \<open>Some\<close> object while one is
  constructed there. The counter is read sequentially (one thread), where the
  compare-exchange of \<open>allocate\<close> succeeds at the first attempt. All indices are \<open>size_t\<close>
  values bounded by \<open>PoolSize\<close>.
\<close>

record 'a MemoryPool =
  storage :: "'a option list"
  allocated :: "bool list"
  free_count :: nat
  free_list :: "nat list"

definition MemoryPool_new :: "nat \<Rightarrow> 'a MemoryPool" where
  "MemoryPool_new PoolSize =
     \<lparr>storage = replicate PoolSize None,
      allocated = replicate PoolSize False,
      free_count = PoolSize,
      free_list = map (\<lambda>i. i) [0..<PoolSize]\<rparr>"

definition allocate :: "'a MemoryPool \<Rightarrow> 'a \<Rightarrow> nat option \<times> 'a MemoryPool" where
  "allocate p obj =
     (let count = free_count p
      in if 0 < count then
           (let idx = free_list p ! (count - 1)
            in (Some idx,
                p\<lparr>free_count := count - 1,
                  allocated := (allocated p)[idx := True],
                  storage := (storage p)[idx := Some obj]\<rparr>))
         else (None, p))"

text \<open>
  \<open>deallocate\<close> writes \<open>allocated_[idx]\<close> and \<open>free_list_[count]\<close> without a bounds check;
  a write outside the arrays is undefined behaviour, reported here as a fault.
\<close>

datatype pool_fault = OutOfBounds

definition deallocate :: "nat \<Rightarrow> 'a MemoryPool \<Rightarrow> nat option \<Rightarrow> pool_fault + 'a MemoryPool" where
  "deallocate PoolSize p ptr =
     (case ptr of
        None \<Rightarrow> Inr p
      | Some idx \<Rightarrow>
          if PoolSize \<le> idx then Inl OutOfBounds
          else
            (let p1 = p\<lparr>storage := (storage p)[idx := None],
                        allocated := (allocated p)[idx := False]\<rparr>;
                 count = free_count p1
             in if PoolSize \<le> count then Inl OutOfBounds
                else Inr (p1\<lparr>free_list := (free_list p1)[count := idx],
                             free_count := count + 1\<rparr>)))"

definition available :: "'a MemoryPool \<Rightarrow> nat" where
  "available p = free_count p"

text \<open>Allocating one object after another, and deallocating a list of pointers in order.\<close>

fun allocate_all :: "'a MemoryPool \<Rightarrow> 'a list \<Rightarrow> nat option list \<times> 'a MemoryPool" where
  "allocate_all p [] = ([], p)"
| "allocate_all p (obj # objs) =
     (case allocate p obj of (ptr, p1) \<Rightarrow>
        (case allocate_all p1 objs of (ptrs, p2) \<Rightarrow> (ptr # ptrs, p2)))"

fun deallocate_all :: "nat \<Rightarrow> 'a MemoryPool \<Rightarrow> nat option list \<Rightarrow> pool_fault + 'a MemoryPool" where
  "deallocate_all PoolSize p [] = Inr p"
| "deallocate_all PoolSize p (ptr # ptrs) =
     (case deallocate PoolSize p ptr of
        Inl e \<Rightarrow> Inl e
      | Inr p1 \<Rightarrow> deallocate_all PoolSize p1 ptrs)"

text \<open>
  What holds of every pool between calls: the arrays have \<open>PoolSize\<close> elements, the
  counter is at most \<open>PoolSize\<close>, and the free list below the counter holds slot indices.
\<close>

definition pool_inv :: "nat \<Rightarrow> 'a MemoryPool \<Rightarrow> bool" where
  "pool_inv PoolSize p =
     (length (storage p) = PoolSize \<and> length (allocated p) = PoolSize
      \<and> length (free_list p) = PoolSize \<and> free_count p \<le> PoolSize
      \<and> (\<forall>i < free_count p. free_list p ! i < PoolSize))"

section \<open>Orders (tcp\_sender.h)\<close>

datatype Side = BUY | SELL

datatype OrderType = LIMIT | MARKET | IOC

record Order =
  order_symbol :: string
  order_id :: u64
  order_side :: Side
  order_type :: OrderType
  order_price :: double
  order_quantity :: double
  order_timestamp :: u64

section \<open>Risk-gated order submitter (order\_manager.h, order\_manager.cpp)\<close>

record RiskLimits =
  max_order_size :: double
  risk_max_position :: double
  max_notional :: double
  max_orders_per_second :: u32

text \<open>The default member initialisers of \<open>RiskLimits\<close>.\<close>

definition RiskLimits_default :: RiskLimits where
  "RiskLimits_default =
     \<lparr>max_order_size = Finite 1000, risk_max_position = Finite 10000,
      max_notional = Finite 1000000, max_orders_per_second = 100\<rparr>"

record OrderManager =
  limits :: RiskLimits
  position :: double
  notional :: double
  orders_this_second :: u32
  last_second_timestamp :: u64

definition OrderManager_new :: OrderManager where
  "OrderManager_new =
     \<lparr>limits = RiskLimits_default, position = Finite 0, notional = Finite 0,
      orders_this_second = 0, last_second_timestamp = 0\<rparr>"

definition set_risk_limits :: "OrderManager \<Rightarrow> RiskLimits \<Rightarrow> OrderManager" where
  "set_risk_limits om l = om\<lparr>limits := l\<rparr>"

definition check_order_size :: "OrderManager \<Rightarrow> double \<Rightarrow> bool" where
  "check_order_size om sz = (0 < sz \<and> sz \<le> max_order_size (limits om))"

definition check_position_limit :: "OrderManager \<Rightarrow> Side \<Rightarrow> double \<Rightarrow> bool" where
  "check_position_limit om sd sz =
     (let current_position = position om;
          new_position = (if sd = BUY then current_position + sz else current_position - sz)
      in \<bar>new_position\<bar> \<le> risk_max_position (limits om))"

definition ONE_SECOND_NS :: u64 where
  "ONE_SECOND_NS = 1000000000"

text \<open>\<open>now_ns\<close> is the value of \<open>Timestamp::wall_clock_ns()\<close> read by the call.\<close>

definition update_rate_limiter :: "OrderManager \<Rightarrow> u64 \<Rightarrow> OrderManager" where
  "update_rate_limiter om now_ns =
     (let last_ns = last_second_timestamp om
      in if ONE_SECOND_NS < now_ns - last_ns
         then om\<lparr>orders_this_second := 0, last_second_timestamp := now_ns\<rparr>
         else om)"

definition check_rate_limit :: "OrderManager \<Rightarrow> u64 \<Rightarrow> bool \<times> OrderManager" where
  "check_rate_limit om now_ns =
     (let om1 = update_rate_limiter om now_ns;
          count = orders_this_second om1
      in if max_orders_per_second (limits om1) \<le> count then (False, om1)
         else (True, om1\<lparr>orders_this_second := count + 1\<rparr>))"

definition check_notional_limit :: "OrderManager \<Rightarrow> double \<Rightarrow> double \<Rightarrow> bool" where
  "check_notional_limit om p sz =
     (let order_notional = p * sz;
          current_notional = notional om
      in current_notional + order_notional \<le> max_notional (limits om))"

text \<open>
  \<open>submit_order\<close> returns \<open>false\<close> after logging which check failed, or the result of
  \<open>send_order\<close>. The result \<open>Inl r\<close> is a return of \<open>false\<close> at the check \<open>r\<close>; \<open>Inr b\<close> is
  the return of \<open>b\<close>, the result of the sender. \<open>order_sender\<close> stands for
  \<open>TCPSender::send_order\<close>.
\<close>

datatype rejection = ORDER_SIZE | POSITION_LIMIT | RATE_LIMIT | NOTIONAL_LIMIT

definition submit_order ::
    "OrderManager \<Rightarrow> Order \<Rightarrow> u64 \<Rightarrow> (Order \<Rightarrow> bool) \<Rightarrow> (rejection + bool) \<times> OrderManager" where
  "submit_order om order now_ns order_sender =
     (if \<not> check_order_size om (order_quantity order) then (Inl ORDER_SIZE, om)
      else if \<not> check_position_limit om (order_side order) (order_quantity order)
      then (Inl POSITION_LIMIT, om)
      else
        (case check_rate_limit om now_ns of (ok, om1) \<Rightarrow>
           if \<not> ok then (Inl RATE_LIMIT, om1)
           else if \<not> check_notional_limit om1 (order_price order) (order_quantity order)
           then (Inl NOTIONAL_LIMIT, om1)
           else
             (let success = order_sender order
              in if success then
                   (let pos = position om1
                    in if order_side order = BUY
                       then (Inr success, om1\<lparr>position := pos + order_quantity order\<rparr>)
                       else (Inr success, om1\<lparr>position := pos - order_quantity order\<rparr>))
                 else (Inr success, om1))))"

text \<open>A sender whose \<open>send_order\<close> succeeds for every order.\<close>

definition accepting_sender :: "Order \<Rightarrow> bool" where
  "accepting_sender order = True"

section \<open>Market-making strategy (strategy.h, strategy.cpp)\<close>

record Parameters =
  spread_target :: double
  quote_size :: double
  max_position :: double
  skew_factor :: double
  edge :: double

record MarketMakingStrategy =
  params :: Parameters
  mm_position :: double
  mm_pnl :: double
  last_quote_time :: u64
  next_order_id :: u64

text \<open>
  The default member initialisers of \<open>Parameters\<close>: \<open>0.0002\<close> and \<open>0.0001\<close> are the
  binary64 values nearest to the decimals; \<open>100.0\<close>, \<open>1000.0\<close> and \<open>0.5\<close> are exact.
\<close>

definition Parameters_default :: Parameters where
  "Parameters_default =
     \<lparr>spread_target = round_double (2 / 10000), quote_size = Finite 100,
      max_position = Finite 1000, skew_factor = Finite (1 / 2),
      edge = round_double (1 / 10000)\<rparr>"

definition MarketMakingStrategy_new :: "Parameters \<Rightarrow> MarketMakingStrategy" where
  "MarketMakingStrategy_new ps =
     \<lparr>params = ps, mm_position = Finite 0, mm_pnl = Finite 0,
      last_quote_time = 0, next_order_id = 1\<rparr>"

definition generate_order_id :: "MarketMakingStrategy \<Rightarrow> u64 \<times> MarketMakingStrategy" where
  "generate_order_id st = (next_order_id st, st\<lparr>next_order_id := next_order_id st + 1\<rparr>)"

definition calculate_fair_value :: "MarketMakingStrategy \<Rightarrow> double \<Rightarrow> double \<Rightarrow> double" where
  "calculate_fair_value st mid pos =
     (let skew = ((- pos) / max_position (params st)) * skew_factor (params st)
      in mid * (Finite 1 + skew))"

text \<open>
  \<open>update_quotes\<close> returns the orders passed to \<open>send_order\<close>, in order, and the new
  state. \<open>t_bid\<close>, \<open>t_ask\<close> and \<open>t_done\<close> are the values of \<open>Timestamp::now()\<close> read for the
  two order records and for the last-quote time.
\<close>

definition update_quotes ::
    "MarketMakingStrategy \<Rightarrow> Snapshot \<Rightarrow> u64 \<Rightarrow> u64 \<Rightarrow> u64 \<Rightarrow> Order list \<times> MarketMakingStrategy" where
  "update_quotes st snapshot t_bid t_ask t_done =
     (let mid = mid_price snapshot
      in if mid \<le> 0 then ([], st)
         else
           (let pos = mm_position st
            in if max_position (params st) \<le> \<bar>pos\<bar> then ([], st)
               else
                 (let fair_value = calculate_fair_value st mid pos;
                      half_spread = fair_value * spread_target (params st) / Finite 2;
                      bid_price = fair_value - half_spread - edge (params st) * fair_value;
                      ask_price = fair_value + half_spread + edge (params st) * fair_value
                  in (case generate_order_id st of (bid_id, st1) \<Rightarrow>
                      (case generate_order_id st1 of (ask_id, st2) \<Rightarrow>
                        (let bid_order =
                               \<lparr>order_symbol = ''SYMBOL'', order_id = bid_id, order_side = BUY,
                                order_type = LIMIT, order_price = bid_price,
                                order_quantity = quote_size (params st),
                                order_timestamp = t_bid\<rparr>;
                             ask_order =
                               \<lparr>order_symbol = ''SYMBOL'', order_id = ask_id, order_side = SELL,
                                order_type = LIMIT, order_price = ask_price,
                                order_quantity = quote_size (params st),
                                order_timestamp = t_ask\<rparr>
                         in ((if pos < max_position (params st) * round_double (8 / 10)
                              then [bid_order] else [])
                             @ (if (- max_position (params st)) * round_double (8 / 10) < pos
                                then [ask_order] else []),
                             st2\<lparr>last_quote_time := t_done\<rparr>)))))))"

text \<open>
  The formulas of the specification for the fair value and the two quote prices
  (section 4.7, steps 5 and 6), written as the specification words them.
\<close>

definition spec_fair :: "Parameters \<Rightarrow> double \<Rightarrow> double \<Rightarrow> double" where
  "spec_fair ps mid p = mid * (Finite 1 - p / max_position ps * skew_factor ps)"

definition spec_bid_px :: "Parameters \<Rightarrow> double \<Rightarrow> double" where
  "spec_bid_px ps fair = fair - fair * spread_target ps / Finite 2 - fair * edge ps"

definition spec_ask_px :: "Parameters \<Rightarrow> double \<Rightarrow> double" where
  "spec_ask_px ps fair = fair + fair * spread_target ps / Finite 2 + fair * edge ps"

section \<open>Binary64 rounding: properties\<close>

lemma scan_exponent_unique:
  assumes "- 1022 \<le> E" "E \<le> int n - 1022" "2 powi E \<le> a" "a < 2 powi (E + 1)"
  shows "scan_exponent a n = E"
  using assms(2)
proof (induction n)
  case 0
  then show ?case using assms(1) by simp
next
  case (Suc n)
  show ?case
  proof (cases "E = int (Suc n) - 1022")
    case True
    then show ?thesis using assms(3) by simp
  next
    case False
    then have le: "E \<le> int n - 1022"
      using Suc.prems by simp
    then have "E + 1 \<le> int (Suc n) - 1022"
      by simp
    then have "(2::real) powi (E + 1) \<le> 2 powi (int (Suc n) - 1022)"
      by (intro power_int_increasing) simp_all
    then have "\<not> 2 powi (int (Suc n) - 1022) \<le> a"
      using assms(4) by linarith
    then show ?thesis
      using Suc.IH [OF le] by simp
  qed
qed

lemma binary_exponent_eq:
  assumes "- 1022 \<le> E" "E \<le> 1023" "2 powi E \<le> a" "a < 2 powi (E + 1)"
  shows "binary_exponent a = E"
  unfolding binary_exponent_def
  using assms by (intro scan_exponent_unique) simp_all

lemma scan_exponent_lower: "2 powi (- 1022) \<le> a \<Longrightarrow> 2 powi (scan_exponent a n) \<le> a"
  by (induction n) simp_all

lemma scan_exponent_upper:
  "a < 2 powi (int n - 1021) \<Longrightarrow> a < 2 powi (scan_exponent a n + 1)"
proof (induction n)
  case 0
  then show ?case by simp
next
  case (Suc n)
  show ?case
  proof (cases "2 powi (int (Suc n) - 1022) \<le> a")
    case True
    have "int (Suc n) - 1022 + 1 = int (Suc n) - 1021"
      by simp
    then show ?thesis using True Suc.prems by simp
  next
    case False
    have "int (Suc n) - 1022 = int n - 1021"
      by simp
    then have "a < 2 powi (int n - 1021)"
      using False by simp
    from Suc.IH [OF this] show ?thesis using False by simp
  qed
qed

lemma scan_exponent_range: "- 1022 \<le> scan_exponent a n \<and> scan_exponent a n \<le> int n - 1022"
  by (induction n) auto

lemma binary_exponent_bounds:
  assumes "2 powi (- 1022) \<le> a" "a < 2 powi 1024"
  shows "2 powi (binary_exponent a) \<le> a" "a < 2 powi (binary_exponent a + 1)"
    "- 1022 \<le> binary_exponent a" "binary_exponent a \<le> 1023"
  using scan_exponent_lower [OF assms(1), of 2045] scan_exponent_upper [of a 2045] assms(2)
    scan_exponent_range [of a 2045]
  by (simp_all add: binary_exponent_def)

lemma round_half_even_of_int: "round_half_even (of_int k) = k"
  by (simp add: round_half_even_def)

lemma round_half_even_near:
  assumes "of_int m - 1 / 2 < y" "y < of_int m + 1 / 2"
  shows "round_half_even y = m"
proof (cases "of_int m \<le> y")
  case True
  then have "\<lfloor>y\<rfloor> = m"
    using assms(2) by (intro floor_unique) linarith+
  then show ?thesis
    using assms(2) by (simp add: round_half_even_def Let_def)
next
  case False
  have a: "real_of_int (m - 1) = of_int m - 1"
    by simp
  have "real_of_int (m - 1) \<le> y" "y < real_of_int (m - 1) + 1"
    using assms(1) False unfolding a by linarith+
  then have f: "\<lfloor>y\<rfloor> = m - 1"
    by (rule floor_unique)
  have "1 / 2 < y - of_int (m - 1)"
    using assms(1) by simp
  then show ?thesis
    by (simp add: round_half_even_def Let_def f)
qed

lemma round_double_uminus: "round_double (- x) = - round_double x"
  by (cases "x = 0"; cases "0 < x") (auto simp: round_double_def Let_def)

lemma round_double_zero: "round_double 0 = Finite 0"
  by (simp add: round_double_def)

lemma round_double_near:
  assumes "0 < x" "- 1022 \<le> E" "E \<le> 1023" "2 powi E \<le> x" "x < 2 powi (E + 1)"
    and "(of_int m - 1 / 2) * 2 powi (E - 52) < x"
    and "x < (of_int m + 1 / 2) * 2 powi (E - 52)"
    and "of_int m * 2 powi (E - 52) \<le> DBL_MAX"
  shows "round_double x = Finite (of_int m * 2 powi (E - 52))"
proof -
  have e: "binary_exponent x = E"
    using assms(2-5) by (rule binary_exponent_eq)
  have q: "(0::real) < 2 powi (E - 52)"
    by simp
  have "of_int m - 1 / 2 < x / 2 powi (E - 52)" "x / 2 powi (E - 52) < of_int m + 1 / 2"
    using assms(6,7) q by (simp_all add: pos_less_divide_eq pos_divide_less_eq)
  then have "round_half_even (x / 2 powi (E - 52)) = m"
    by (rule round_half_even_near)
  then show ?thesis
    using assms(1,8) by (simp add: round_double_def Let_def e)
qed


lemma DBL_MAX_powi: "DBL_MAX = (2 ^ 53 - 1) * 2 powi 971"
proof -
  have "(2::real) powi 971 = 2 ^ 971"
    using power_int_of_nat [of "2::real" 971] by simp
  then show ?thesis
    by (simp only: DBL_MAX_def)
qed

lemma round_double_exact_pos:
  assumes "0 < x" "x = of_int k * 2 powi q" "k < 2 ^ 53"
    and "2 powi (- 1022) \<le> x" "x < 2 powi 1024"
  shows "round_double x = Finite x"
proof -
  define E where "E = binary_exponent x"
  note b = binary_exponent_bounds [OF assms(4,5), folded E_def]
  have "0 < real_of_int k * 2 powi q"
    using assms(1,2) by simp
  then have "0 < real_of_int k"
    by (rule zero_less_mult_pos2) simp
  then have kpos: "0 < k"
    by simp
  have k53: "real_of_int k < 2 ^ 53"
    using assms(3) by (metis of_int_less_iff of_int_numeral of_int_power)
  have qE: "E - 52 \<le> q"
  proof (rule ccontr)
    assume "\<not> E - 52 \<le> q"
    then have "53 + q \<le> E"
      by simp
    then have "(2::real) powi (53 + q) \<le> 2 powi E"
      by (intro power_int_increasing) simp_all
    moreover have "real_of_int k * 2 powi q < 2 ^ 53 * 2 powi q"
      using k53 by (intro mult_strict_right_mono) simp_all
    moreover have "(2::real) powi (53 + q) = 2 ^ 53 * 2 powi q"
      by (simp add: power_int_add)
    ultimately show False
      using b(1) assms(2) by linarith
  qed
  define j where "j = nat (q - (E - 52))"
  have j: "q = (E - 52) + int j"
    using qE by (simp add: j_def)
  have pj: "(2::real) powi q = 2 powi (E - 52) * 2 ^ j"
    by (subst j) (simp add: power_int_add)
  have xk: "x = real_of_int (k * 2 ^ j) * 2 powi (E - 52)"
    by (simp add: assms(2) pj)
  have xq: "x / 2 powi (E - 52) = of_int (k * 2 ^ j)"
    by (subst xk) simp
  have r: "round_half_even (x / 2 powi (E - 52)) = k * 2 ^ j"
    unfolding xq by (rule round_half_even_of_int)
  have e53: "(2::real) powi (E + 1) = 2 ^ 53 * 2 powi (E - 52)"
  proof -
    have "E + 1 = 53 + (E - 52)"
      by simp
    then have "(2::real) powi (E + 1) = 2 powi (53 + (E - 52))"
      by (rule arg_cong)
    also have "\<dots> = 2 powi 53 * 2 powi (E - 52)"
      by (rule power_int_add) simp
    also have "(2::real) powi 53 = 2 ^ 53"
      using power_int_of_nat [of "2::real" 53] by simp
    finally show ?thesis .
  qed
  have "real_of_int (k * 2 ^ j) * 2 powi (E - 52) < 2 ^ 53 * 2 powi (E - 52)"
    using b(2) xk e53 by simp
  then have "real_of_int (k * 2 ^ j) < 2 ^ 53"
    by simp
  then have "k * 2 ^ j < 2 ^ 53"
    by (metis of_int_less_iff of_int_numeral of_int_power)
  then have "k * 2 ^ j \<le> 2 ^ 53 - 1"
    by simp
  then have "real_of_int (k * 2 ^ j) \<le> real_of_int (2 ^ 53 - 1)"
    by (simp only: of_int_le_iff)
  then have m: "real_of_int (k * 2 ^ j) \<le> 2 ^ 53 - 1"
    by simp
  have "real_of_int (k * 2 ^ j) * 2 powi (E - 52) \<le> (2 ^ 53 - 1) * 2 powi (E - 52)"
    using m by (intro mult_right_mono) simp_all
  moreover have "(2::real) powi (E - 52) \<le> 2 powi 971"
    using b(4) by (intro power_int_increasing) simp_all
  then have "(2 ^ 53 - 1) * (2::real) powi (E - 52) \<le> (2 ^ 53 - 1) * 2 powi 971"
    by (intro mult_left_mono) simp_all
  ultimately have "x \<le> DBL_MAX"
    unfolding DBL_MAX_powi using xk by linarith
  note le = this
  have rd: "round_double x =
      (if DBL_MAX < of_int (round_half_even (x / 2 powi (E - 52))) * 2 powi (E - 52) then PInf
       else Finite (of_int (round_half_even (x / 2 powi (E - 52))) * 2 powi (E - 52)))"
    using assms(1) by (simp add: round_double_def Let_def E_def)
  have val: "of_int (round_half_even (x / 2 powi (E - 52))) * 2 powi (E - 52) = x"
    by (simp only: r) (rule xk [symmetric])
  show ?thesis
    unfolding rd val using le by simp
qed

lemma round_double_int:
  assumes "0 < n" "n < 2 ^ 53"
  shows "round_double (of_int n) = Finite (of_int n)"
proof (rule round_double_exact_pos [where k = n and q = 0])
  show "0 < real_of_int n" using assms(1) by simp
  show "real_of_int n = of_int n * 2 powi 0" by simp
  show "n < 2 ^ 53" by (rule assms(2))
  have "(2::real) powi (- 1022) \<le> 2 powi 0"
    by (intro power_int_increasing) simp_all
  moreover have "1 \<le> real_of_int n" using assms(1) by simp
  ultimately show "2 powi (- 1022) \<le> real_of_int n" by simp
  have "real_of_int n < 2 ^ 53"
    using assms(2) by (metis of_int_less_iff of_int_numeral of_int_power)
  moreover have "(2::real) powi 53 \<le> 2 powi 1024"
    by (intro power_int_increasing) simp_all
  ultimately show "real_of_int n < 2 powi 1024"
    by (simp add: power_int_def)
qed

subsection \<open>Values that are their own rounding, and algebraic identities\<close>

lemma DBL_MAX_pos: "0 < DBL_MAX"
  by (simp add: DBL_MAX_def)

lemma rd_DBL_MAX: "round_double DBL_MAX = Finite DBL_MAX"
proof (rule round_double_exact_pos [where k = "2 ^ 53 - 1" and q = 971])
  show "0 < DBL_MAX" by (rule DBL_MAX_pos)
  show "DBL_MAX = real_of_int (2 ^ 53 - 1) * 2 powi 971" by (simp add: DBL_MAX_powi)
  show "(2 ^ 53 - 1 :: int) < 2 ^ 53" by simp
  show "2 powi (- 1022) \<le> DBL_MAX" by (simp add: DBL_MAX_def power_int_minus)
  show "DBL_MAX < 2 powi 1024" by (simp add: DBL_MAX_def)
qed

lemma rd_DBL_MAX_half: "round_double (DBL_MAX / 2) = Finite (DBL_MAX / 2)"
proof (rule round_double_exact_pos [where k = "2 ^ 53 - 1" and q = 970])
  show "0 < DBL_MAX / 2" using DBL_MAX_pos by simp
  show "DBL_MAX / 2 = real_of_int (2 ^ 53 - 1) * 2 powi 970" by (simp add: DBL_MAX_def)
  show "(2 ^ 53 - 1 :: int) < 2 ^ 53" by simp
  show "2 powi (- 1022) \<le> DBL_MAX / 2" by (simp add: DBL_MAX_def power_int_minus)
  show "DBL_MAX / 2 < 2 powi 1024" by (simp add: DBL_MAX_def)
qed

lemma uminus_divide_double: "(- a) / b = - (a / (b::double))"
  by (cases a; cases b) (auto simp: round_double_uminus)

lemma uminus_times_double: "(- a) * b = - (a * (b::double))"
  by (cases a; cases b) (auto simp: round_double_uminus)

lemma times_commute_double: "a * b = b * (a::double)"
  by (cases a; cases b) (auto simp: mult.commute)

subsection \<open>The roundings of the values used below\<close>

lemma rd_spread_target: "round_double (1 / 5000) = Finite (7378697629483821 / 36893488147419103232)"
proof -
  have "round_double (1 / 5000) = Finite (of_int 7378697629483821 * 2 powi (- 13 - 52))"
    by (rule round_double_near) (simp_all add: DBL_MAX_def power_int_minus)
  then show ?thesis
    by (simp add: power_int_minus)
qed

lemma rd_edge: "round_double (1 / 10000) = Finite (7378697629483821 / 73786976294838206464)"
proof -
  have "round_double (1 / 10000) = Finite (of_int 7378697629483821 * 2 powi (- 14 - 52))"
    by (rule round_double_near) (simp_all add: DBL_MAX_def power_int_minus)
  then show ?thesis
    by (simp add: power_int_minus)
qed

lemma rd_0_8: "round_double (4 / 5) = Finite (3602879701896397 / 4503599627370496)"
proof -
  have "round_double (4 / 5) = Finite (of_int 7205759403792794 * 2 powi (- 1 - 52))"
    by (rule round_double_near) (simp_all add: DBL_MAX_def power_int_minus)
  then show ?thesis
    by (simp add: power_int_minus)
qed

lemma rd_fair_spread: "round_double (184467440737095525 / 9223372036854775808) = Finite (5764607523034235 / 288230376151711744)"
proof -
  have "round_double (184467440737095525 / 9223372036854775808) = Finite (of_int 5764607523034235 * 2 powi (- 6 - 52))"
    by (rule round_double_near) (simp_all add: DBL_MAX_def power_int_minus)
  then show ?thesis
    by (simp add: power_int_minus)
qed

lemma rd_half: "round_double (5764607523034235 / 576460752303423488) = Finite (5764607523034235 / 576460752303423488)"
proof -
  have "round_double (5764607523034235 / 576460752303423488) = Finite (of_int 5764607523034235 * 2 powi (- 7 - 52))"
    by (rule round_double_near) (simp_all add: DBL_MAX_def power_int_minus)
  then show ?thesis
    by (simp add: power_int_minus)
qed

lemma rd_fair_minus_half: "round_double (57640310622819314565 / 576460752303423488) = Finite (7036170730324623 / 70368744177664)"
proof -
  have "round_double (57640310622819314565 / 576460752303423488) = Finite (of_int 7036170730324623 * 2 powi (6 - 52))"
    by (rule round_double_near) (simp_all add: DBL_MAX_def power_int_minus)
  then show ?thesis
    by (simp add: power_int_minus)
qed

lemma rd_edge_fair: "round_double (184467440737095525 / 18446744073709551616) = Finite (5764607523034235 / 576460752303423488)"
proof -
  have "round_double (184467440737095525 / 18446744073709551616) = Finite (of_int 5764607523034235 * 2 powi (- 7 - 52))"
    by (rule round_double_near) (simp_all add: DBL_MAX_def power_int_minus)
  then show ?thesis
    by (simp add: power_int_minus)
qed

lemma rd_bid: "round_double (57634546015296277381 / 576460752303423488) = Finite (3517733521441423 / 35184372088832)"
proof -
  have "round_double (57634546015296277381 / 576460752303423488) = Finite (of_int 7035467042882846 * 2 powi (6 - 52))"
    by (rule round_double_near) (simp_all add: DBL_MAX_def power_int_minus)
  then show ?thesis
    by (simp add: power_int_minus)
qed

lemma rd_fair_plus_half: "round_double (57651839837865383035 / 576460752303423488) = Finite (7037578105208177 / 70368744177664)"
proof -
  have "round_double (57651839837865383035 / 576460752303423488) = Finite (of_int 7037578105208177 * 2 powi (6 - 52))"
    by (rule round_double_near) (simp_all add: DBL_MAX_def power_int_minus)
  then show ?thesis
    by (simp add: power_int_minus)
qed

lemma rd_ask: "round_double (57657604445388420219 / 576460752303423488) = Finite (3519140896324977 / 35184372088832)"
proof -
  have "round_double (57657604445388420219 / 576460752303423488) = Finite (of_int 7038281792649954 * 2 powi (6 - 52))"
    by (rule round_double_near) (simp_all add: DBL_MAX_def power_int_minus)
  then show ?thesis
    by (simp add: power_int_minus)
qed

lemma rd_99_98: "round_double (4999 / 50) = Finite (7035467042882847 / 70368744177664)"
proof -
  have "round_double (4999 / 50) = Finite (of_int 7035467042882847 * 2 powi (6 - 52))"
    by (rule round_double_near) (simp_all add: DBL_MAX_def power_int_minus)
  then show ?thesis
    by (simp add: power_int_minus)
qed

lemma rd_100_02: "round_double (5001 / 50) = Finite (7038281792649953 / 70368744177664)"
proof -
  have "round_double (5001 / 50) = Finite (of_int 7038281792649953 * 2 powi (6 - 52))"
    by (rule round_double_near) (simp_all add: DBL_MAX_def power_int_minus)
  then show ?thesis
    by (simp add: power_int_minus)
qed

lemma rd_800: "round_double (450359962737049625 / 562949953421312) = Finite (800)"
proof -
  have "round_double (450359962737049625 / 562949953421312) = Finite (of_int 7036874417766400 * 2 powi (9 - 52))"
    by (rule round_double_near) (simp_all add: DBL_MAX_def power_int_minus)
  then show ?thesis
    by (simp add: power_int_minus)
qed

lemma rd_int_1: "round_double (1) = Finite (1)"
proof -
  have "round_double (1) = Finite (of_int 4503599627370496 * 2 powi (0 - 52))"
    by (rule round_double_near) (simp_all add: DBL_MAX_def power_int_minus)
  then show ?thesis
    by (simp add: power_int_minus)
qed

lemma rd_int_2: "round_double (2) = Finite (2)"
proof -
  have "round_double (2) = Finite (of_int 4503599627370496 * 2 powi (1 - 52))"
    by (rule round_double_near) (simp_all add: DBL_MAX_def power_int_minus)
  then show ?thesis
    by (simp add: power_int_minus)
qed

lemma rd_int_100: "round_double (100) = Finite (100)"
proof -
  have "round_double (100) = Finite (of_int 7036874417766400 * 2 powi (6 - 52))"
    by (rule round_double_near) (simp_all add: DBL_MAX_def power_int_minus)
  then show ?thesis
    by (simp add: power_int_minus)
qed

lemma rd_int_200: "round_double (200) = Finite (200)"
proof -
  have "round_double (200) = Finite (of_int 7036874417766400 * 2 powi (7 - 52))"
    by (rule round_double_near) (simp_all add: DBL_MAX_def power_int_minus)
  then show ?thesis
    by (simp add: power_int_minus)
qed

lemma rd_int_1000: "round_double (1000) = Finite (1000)"
proof -
  have "round_double (1000) = Finite (of_int 8796093022208000 * 2 powi (9 - 52))"
    by (rule round_double_near) (simp_all add: DBL_MAX_def power_int_minus)
  then show ?thesis
    by (simp add: power_int_minus)
qed

lemma rd_int_20000: "round_double (20000) = Finite (20000)"
proof -
  have "round_double (20000) = Finite (of_int 5497558138880000 * 2 powi (14 - 52))"
    by (rule round_double_near) (simp_all add: DBL_MAX_def power_int_minus)
  then show ?thesis
    by (simp add: power_int_minus)
qed

lemma rd_int_2000000: "round_double (2000000) = Finite (2000000)"
proof -
  have "round_double (2000000) = Finite (of_int 8589934592000000 * 2 powi (20 - 52))"
    by (rule round_double_near) (simp_all add: DBL_MAX_def power_int_minus)
  then show ?thesis
    by (simp add: power_int_minus)
qed

subsection \<open>Checks of the rounding\<close>

text \<open>
  A tie goes to the even significand, a result beyond the largest finite value overflows
  to infinity, and \<open>0.1\<close> is \<open>3602879701896397 / 2 ^ 55\<close>.
\<close>

lemma round_double_tie_even:
  "round_double 9007199254740993 = Finite 9007199254740992"
  "round_double 9007199254740995 = Finite 9007199254740996"
proof -
  have e: "binary_exponent 9007199254740993 = 53" "binary_exponent 9007199254740995 = 53"
    by (rule binary_exponent_eq; simp)+
  have h: "round_half_even (9007199254740993 / 2) = 4503599627370496"
    "round_half_even (9007199254740995 / 2) = 4503599627370498"
    by (simp_all add: round_half_even_def Let_def)
  show "round_double 9007199254740993 = Finite 9007199254740992"
    "round_double 9007199254740995 = Finite 9007199254740996"
    by (simp_all add: round_double_def Let_def e h DBL_MAX_def)
qed

lemma round_double_overflow: "round_double (2 * DBL_MAX) = PInf"
proof -
  have e: "binary_exponent \<bar>2 * DBL_MAX\<bar> = 1023"
    unfolding binary_exponent_def
    by (simp add: DBL_MAX_def eval_nat_numeral)
  show ?thesis
    unfolding round_double_def Let_def e
    by (simp add: DBL_MAX_def round_half_even_def Let_def)
qed

lemma rd_0_1: "round_double (1 / 10) = Finite (3602879701896397 / 36028797018963968)"
proof -
  have "round_double (1 / 10) = Finite (of_int 7205759403792794 * 2 powi (- 4 - 52))"
    by (rule round_double_near) (simp_all add: DBL_MAX_def power_int_minus)
  then show ?thesis
    by (simp add: power_int_minus)
qed

section \<open>Order book: properties\<close>

lemma book_inv_init: "book_inv (Book_init\<lparr>levels := map reset (levels Book_init)\<rparr>)"
  by (simp add: book_inv_def Book_init_def reset_def list_all_iff)

lemma book_inv_update_level:
  assumes "book_inv b" and "level < MAX_DEPTH"
  shows "book_inv (update_level b level p q)"
proof -
  have len: "length (levels b) = MAX_DEPTH" and zero: "\<forall>l \<in> set (levels b). order_count l = 0"
    using assms(1) by (simp_all add: book_inv_def list_all_iff)
  have "order_count (levels b ! level) = 0"
    using len zero assms(2) by simp
  then have "\<forall>l \<in> set ((levels b)[level := (levels b ! level)\<lparr>price := p, quantity := q\<rparr>]).
      order_count l = 0"
    using zero by (auto dest!: set_update_subset_insert [THEN subsetD])
  then show ?thesis
    using len by (simp add: book_inv_def update_level_def Let_def list_all_iff)
qed

lemma reachable_book_inv:
  "reachable_book ob \<Longrightarrow> book_inv (bids ob) \<and> book_inv (asks ob)"
proof (induction rule: reachable_book.induct)
  case (rb_new name)
  show ?case by (simp add: OrderBook_new_def book_inv_init)
next
  case (rb_bid ob level p q)
  then show ?case
    by (cases "MAX_DEPTH \<le> level") (simp_all add: update_bid_def book_inv_update_level)
next
  case (rb_ask ob level p q)
  then show ?case
    by (cases "MAX_DEPTH \<le> level") (simp_all add: update_ask_def book_inv_update_level)
qed

lemma update_level_sequence: "sequence (update_level b level p q) = sequence b + 1"
  by (simp add: update_level_def Let_def)

lemma update_level_depth:
  assumes "level < MAX_DEPTH"
  shows "level + 1 \<le> unat (depth (update_level b level p q))"
proof (cases "unat (depth b) \<le> level")
  case True
  have "unat (of_nat (level + 1) :: u32) = level + 1"
    using assms by (simp only: unat_of_nat) (simp add: MAX_DEPTH_def)
  with True show ?thesis
    by (simp add: update_level_def Let_def)
next
  case False
  then show ?thesis
    by (simp add: update_level_def Let_def)
qed

lemma update_level_level:
  assumes "book_inv b" and "level < MAX_DEPTH"
  shows "levels (update_level b level p q) ! level =
         \<lparr>price = p, quantity = q, order_count = 0\<rparr>"
proof -
  have len: "length (levels b) = MAX_DEPTH" and "\<forall>l \<in> set (levels b). order_count l = 0"
    using assms(1) by (simp_all add: book_inv_def list_all_iff)
  then have "order_count (levels b ! level) = 0"
    using assms(2) by simp
  then show ?thesis
    using len assms(2) by (simp add: update_level_def Let_def)
qed

lemma get_snapshot_bid_level:
  "L < MAX_DEPTH \<Longrightarrow> snap_bids (get_snapshot ob now) ! L = levels (bids ob) ! L"
  by (simp add: get_snapshot_def)

lemma get_snapshot_ask_level:
  "L < MAX_DEPTH \<Longrightarrow> snap_asks (get_snapshot ob now) ! L = levels (asks ob) ! L"
  by (simp add: get_snapshot_def)

lemma OrderBook_new_depth:
  "depth (bids (OrderBook_new name)) = 0" "depth (asks (OrderBook_new name)) = 0"
  by (simp_all add: OrderBook_new_def Book_init_def)

lemma OrderBook_new_sequence:
  "sequence (bids (OrderBook_new name)) = 0" "sequence (asks (OrderBook_new name)) = 0"
  by (simp_all add: OrderBook_new_def Book_init_def)

lemma empty_book_best:
  "best_bid (get_snapshot (OrderBook_new name) now) = Finite 0"
  "best_ask (get_snapshot (OrderBook_new name) now) = Finite DBL_MAX"
  by (simp_all add: best_bid_def best_ask_def get_snapshot_def OrderBook_new_depth)

lemma update_out_of_range:
  "MAX_DEPTH \<le> L \<Longrightarrow> update_bid ob L P Q = ob \<and> update_ask ob L P Q = ob"
  by (simp add: update_bid_def update_ask_def)

subsection \<open>Level update followed by a snapshot\<close>

text \<open>
  C4, as stated: for every level index \<open>L\<close>, a snapshot taken after \<open>update_bid(L, P, Q)\<close>
  observes a depth of at least \<open>L + 1\<close>. This fails at \<open>L = MAX_DEPTH = 10\<close>: the update
  returns at its bounds check, and the snapshot of the new book still has depth 0 and
  sequence 0.
\<close>

theorem update_bid_out_of_range_counterexample:
  "\<not> (10 + 1 \<le> unat (bid_depth (get_snapshot
          (update_bid (OrderBook_new ''AAPL'') 10 (Finite 100) (Finite 500)) 0)))
   \<and> \<not> (sequence (bids (OrderBook_new ''AAPL'')) + 1 \<le> bid_sequence (get_snapshot
          (update_bid (OrderBook_new ''AAPL'') 10 (Finite 100) (Finite 500)) 0))"
  by (simp add: update_bid_def MAX_DEPTH_def get_snapshot_def OrderBook_new_depth
      OrderBook_new_sequence)

text \<open>
  C4, amended: for every book reached from a new book by updates, every level index
  \<open>L < MAX_DEPTH\<close>, price \<open>P\<close> and quantity \<open>Q\<close>: the snapshot taken after
  \<open>update_bid(L, P, Q)\<close> has bid sequence equal to the prior bid sequence plus one (so at
  least that, in 64-bit arithmetic), bid depth at least \<open>L + 1\<close>, and bid level \<open>L\<close> equal to
  \<open>(P, Q, 0)\<close>; and likewise for \<open>update_ask\<close> and the ask side.
\<close>

theorem update_then_snapshot:
  assumes "reachable_book ob" and "L < MAX_DEPTH"
  shows "bid_sequence (get_snapshot (update_bid ob L P Q) now) = sequence (bids ob) + 1
       \<and> sequence (bids ob) + 1 \<le> bid_sequence (get_snapshot (update_bid ob L P Q) now)
       \<and> L + 1 \<le> unat (bid_depth (get_snapshot (update_bid ob L P Q) now))
       \<and> snap_bids (get_snapshot (update_bid ob L P Q) now) ! L
           = \<lparr>price = P, quantity = Q, order_count = 0\<rparr>
       \<and> ask_sequence (get_snapshot (update_ask ob L P Q) now) = sequence (asks ob) + 1
       \<and> sequence (asks ob) + 1 \<le> ask_sequence (get_snapshot (update_ask ob L P Q) now)
       \<and> L + 1 \<le> unat (ask_depth (get_snapshot (update_ask ob L P Q) now))
       \<and> snap_asks (get_snapshot (update_ask ob L P Q) now) ! L
           = \<lparr>price = P, quantity = Q, order_count = 0\<rparr>"
proof -
  have inv: "book_inv (bids ob)" "book_inv (asks ob)"
    using reachable_book_inv [OF assms(1)] by simp_all
  have ub: "update_bid ob L P Q = ob\<lparr>bids := update_level (bids ob) L P Q\<rparr>"
    and ua: "update_ask ob L P Q = ob\<lparr>asks := update_level (asks ob) L P Q\<rparr>"
    using assms(2) by (simp_all add: update_bid_def update_ask_def)
  have bseq: "bid_sequence (get_snapshot (update_bid ob L P Q) now) = sequence (bids ob) + 1"
    by (simp add: ub get_snapshot_def update_level_sequence)
  have aseq: "ask_sequence (get_snapshot (update_ask ob L P Q) now) = sequence (asks ob) + 1"
    by (simp add: ua get_snapshot_def update_level_sequence)
  have bdepth: "L + 1 \<le> unat (bid_depth (get_snapshot (update_bid ob L P Q) now))"
    using update_level_depth [OF assms(2), of "bids ob" P Q]
    by (simp add: ub get_snapshot_def)
  have adepth: "L + 1 \<le> unat (ask_depth (get_snapshot (update_ask ob L P Q) now))"
    using update_level_depth [OF assms(2), of "asks ob" P Q]
    by (simp add: ua get_snapshot_def)
  have blevel: "snap_bids (get_snapshot (update_bid ob L P Q) now) ! L
      = \<lparr>price = P, quantity = Q, order_count = 0\<rparr>"
    using update_level_level [OF inv(1) assms(2), of P Q]
    by (simp add: get_snapshot_bid_level [OF assms(2)] ub)
  have alevel: "snap_asks (get_snapshot (update_ask ob L P Q) now) ! L
      = \<lparr>price = P, quantity = Q, order_count = 0\<rparr>"
    using update_level_level [OF inv(2) assms(2), of P Q]
    by (simp add: get_snapshot_ask_level [OF assms(2)] ua)
  show ?thesis
    using bseq aseq bdepth adepth blevel alevel by simp
qed

theorem update_then_snapshot_witness:
  "reachable_book (OrderBook_new ''AAPL'') \<and> 0 < MAX_DEPTH
   \<and> bid_sequence (get_snapshot
        (update_bid (OrderBook_new ''AAPL'') 0 (Finite 100) (Finite 500)) 7) = 1
   \<and> 0 + 1 \<le> unat (bid_depth (get_snapshot
        (update_bid (OrderBook_new ''AAPL'') 0 (Finite 100) (Finite 500)) 7))
   \<and> snap_bids (get_snapshot
        (update_bid (OrderBook_new ''AAPL'') 0 (Finite 100) (Finite 500)) 7) ! 0
       = \<lparr>price = Finite 100, quantity = Finite 500, order_count = 0\<rparr>"
proof -
  have r: "reachable_book (OrderBook_new ''AAPL'')"
    by (rule rb_new)
  have l: "0 < MAX_DEPTH"
    by (simp add: MAX_DEPTH_def)
  show ?thesis
    using r l update_then_snapshot [OF r l, of "Finite 100" "Finite 500" 7]
    by (simp add: OrderBook_new_sequence)
qed

subsection \<open>Top of book of a snapshot\<close>

text \<open>
  C6, as stated: when \<open>ask_depth == 0\<close>, \<open>best_ask()\<close> equals plus infinity. The snapshot of
  a new book has ask depth 0, and its best ask is the finite value
  \<open>std::numeric_limits<double>::max()\<close>, not the infinity.
\<close>

theorem best_ask_infinity_counterexample:
  "ask_depth (get_snapshot (OrderBook_new ''AAPL'') 0) = 0
   \<and> best_ask (get_snapshot (OrderBook_new ''AAPL'') 0) \<noteq> PInf"
proof -
  have "ask_depth (get_snapshot (OrderBook_new ''AAPL'') 0) = 0"
    by (simp add: get_snapshot_def OrderBook_new_depth)
  moreover have "best_ask (get_snapshot (OrderBook_new ''AAPL'') 0) \<noteq> PInf"
    by (simp add: empty_book_best)
  ultimately show ?thesis by simp
qed

text \<open>
  C6, amended: for every snapshot \<open>S\<close>, when \<open>S.bid_depth == 0\<close>, \<open>S.best_bid()\<close> equals 0;
  and when \<open>S.ask_depth == 0\<close>, \<open>S.best_ask()\<close> equals the largest finite double,
  \<open>std::numeric_limits<double>::max()\<close>.
\<close>

theorem best_bid_ask_empty_side:
  "(bid_depth s = 0 \<longrightarrow> best_bid s = Finite 0)
   \<and> (ask_depth s = 0 \<longrightarrow> best_ask s = Finite DBL_MAX)"
  by (simp add: best_bid_def best_ask_def)

theorem best_bid_ask_empty_side_witness:
  "bid_depth (get_snapshot (OrderBook_new ''AAPL'') 0) = 0
   \<and> best_bid (get_snapshot (OrderBook_new ''AAPL'') 0) = Finite 0
   \<and> ask_depth (get_snapshot (OrderBook_new ''AAPL'') 0) = 0
   \<and> best_ask (get_snapshot (OrderBook_new ''AAPL'') 0) = Finite DBL_MAX"
proof -
  have d: "bid_depth (get_snapshot (OrderBook_new ''AAPL'') 0) = 0"
    "ask_depth (get_snapshot (OrderBook_new ''AAPL'') 0) = 0"
    by (simp_all add: get_snapshot_def OrderBook_new_depth)
  show ?thesis
    using d best_bid_ask_empty_side [of "get_snapshot (OrderBook_new ''AAPL'') 0"]
    by simp
qed

subsection \<open>Spread in basis points\<close>

lemma double_le_not_less: "(x::double) \<le> y \<Longrightarrow> \<not> y < x"
  by (cases x; cases y) (auto simp: less_eq_double_def)

lemma mid_price_empty_book:
  "mid_price (get_snapshot (OrderBook_new name) now) = Finite (DBL_MAX / 2)"
  using DBL_MAX_pos
  by (simp add: mid_price_def empty_book_best rd_DBL_MAX rd_DBL_MAX_half)

lemma spread_bps_empty_book:
  "spread_bps (get_snapshot (OrderBook_new name) now) = Finite 20000"
proof -
  have q: "DBL_MAX / (DBL_MAX / 2) = 2"
    using DBL_MAX_pos by simp
  have s: "spread (get_snapshot (OrderBook_new name) now) = Finite DBL_MAX"
    by (simp add: spread_def empty_book_best minus_double_def rd_DBL_MAX)
  show ?thesis
    using DBL_MAX_pos
    by (simp add: spread_bps_def Let_def mid_price_empty_book s zero_double_def q rd_int_2
        rd_int_20000)
qed

lemma mid_price_zero_book:
  "mid_price (get_snapshot (update_ask (update_bid (OrderBook_new ''AAPL'')
      0 (Finite 0) (Finite 0)) 0 (Finite 0) (Finite 0)) 0) = Finite 0"
  by (simp add: mid_price_def best_bid_def best_ask_def get_snapshot_def update_bid_def
      update_ask_def MAX_DEPTH_def update_level_def Let_def OrderBook_new_def Book_init_def
      round_double_zero)

text \<open>
  C10: \<open>spread_bps()\<close> returns 0 whenever \<open>mid_price() \<le> 0\<close> (first conjunct), and more
  generally whenever \<open>mid_price() > 0\<close> is false, which includes a NaN mid (second
  conjunct); the quotient by the mid is the result only when the mid is positive (third
  conjunct). The snapshot of a new, empty book has the defined value 20000 (fourth
  conjunct): its best bid is 0 and its best ask is the largest finite double, so its mid is
  positive.
\<close>

theorem spread_bps_guarded:
  "(mid_price s \<le> 0 \<longrightarrow> spread_bps s = Finite 0)
   \<and> (\<not> 0 < mid_price s \<longrightarrow> spread_bps s = Finite 0)
   \<and> (0 < mid_price s \<longrightarrow> spread_bps s = spread s / mid_price s * Finite 10000)
   \<and> spread_bps (get_snapshot (OrderBook_new name) now) = Finite 20000"
proof -
  have "mid_price s \<le> 0 \<longrightarrow> spread_bps s = Finite 0"
    by (auto simp: spread_bps_def Let_def dest: double_le_not_less)
  moreover have "\<not> 0 < mid_price s \<longrightarrow> spread_bps s = Finite 0"
    by (simp add: spread_bps_def Let_def)
  moreover have "0 < mid_price s \<longrightarrow> spread_bps s = spread s / mid_price s * Finite 10000"
    by (simp add: spread_bps_def Let_def)
  ultimately show ?thesis
    using spread_bps_empty_book by simp
qed

theorem spread_bps_guarded_witness:
  "mid_price (get_snapshot (update_ask (update_bid (OrderBook_new ''AAPL'')
      0 (Finite 0) (Finite 0)) 0 (Finite 0) (Finite 0)) 0) \<le> 0
   \<and> spread_bps (get_snapshot (update_ask (update_bid (OrderBook_new ''AAPL'')
      0 (Finite 0) (Finite 0)) 0 (Finite 0) (Finite 0)) 0) = Finite 0
   \<and> 0 < mid_price (get_snapshot (OrderBook_new ''AAPL'') 0)
   \<and> spread_bps (get_snapshot (OrderBook_new ''AAPL'') 0)
       = spread (get_snapshot (OrderBook_new ''AAPL'') 0)
         / mid_price (get_snapshot (OrderBook_new ''AAPL'') 0) * Finite 10000"
proof -
  have le: "mid_price (get_snapshot (update_ask (update_bid (OrderBook_new ''AAPL'')
      0 (Finite 0) (Finite 0)) 0 (Finite 0) (Finite 0)) 0) \<le> 0"
    by (simp add: mid_price_zero_book zero_double_def less_eq_double_def)
  have pos: "0 < mid_price (get_snapshot (OrderBook_new ''AAPL'') 0)"
    using DBL_MAX_pos by (simp add: mid_price_empty_book zero_double_def)
  show ?thesis
    using le pos
      spread_bps_guarded [of "get_snapshot (update_ask (update_bid (OrderBook_new ''AAPL'')
        0 (Finite 0) (Finite 0)) 0 (Finite 0) (Finite 0)) 0"]
      spread_bps_guarded [of "get_snapshot (OrderBook_new ''AAPL'') 0"]
    by blast
qed

section \<open>SPSC ring: properties\<close>

subsection \<open>Index arithmetic\<close>

lemma unat_pow2: 
  assumes "k < 64" shows "unat (2 ^ k :: u64) = 2 ^ k"
proof -
  have "(2::nat) ^ k < 2 ^ 64"
    using assms by (rule power_strict_increasing) simp
  moreover have "(2 ^ k :: u64) = of_nat (2 ^ k)"
    by simp
  ultimately show ?thesis
    by (simp only: unat_of_nat len_of_numeral_defs) simp
qed

lemma unat_next_index:
  fixes x :: u64
  assumes "k < 64"
  shows "unat ((x + 1) AND (2 ^ k - 1)) = (unat x + 1) mod 2 ^ k"
proof -
  have dvd: "(2::nat) ^ k dvd 2 ^ 64"
    using assms by (intro le_imp_power_dvd) simp
  have "(x + 1) AND (2 ^ k - 1) = take_bit k (x + 1)"
    by (simp add: take_bit_eq_mask mask_eq_exp_minus_1)
  then have "unat ((x + 1) AND (2 ^ k - 1)) = take_bit k (unat (x + 1))"
    by (simp only: unsigned_take_bit_eq)
  also have "\<dots> = unat (x + 1) mod 2 ^ k"
    by (simp only: take_bit_eq_mod)
  also have "unat (x + 1) = (unat x + 1) mod 2 ^ 64"
    by (simp add: unat_word_ariths)
  also have "(unat x + 1) mod 2 ^ 64 mod 2 ^ k = (unat x + 1) mod 2 ^ k"
    using dvd by (rule mod_mod_cancel)
  finally show ?thesis .
qed

lemma mod_lt2: "a < 2 * N \<Longrightarrow> (a::nat) mod N = (if a < N then a else a - N)"
  by (simp add: le_mod_geq)

lemma ring_len_cases:
  assumes "h < N" "t < N"
  shows "(t + N - h) mod N = (if h \<le> t then t - h else t + N - (h::nat))"
proof -
  have "t + N - h < 2 * N" using assms by arith
  from mod_lt2 [OF this] show ?thesis using assms by auto
qed

lemma ring_idx_end:
  assumes "h < N" "t < N"
  shows "(h + (t + N - h) mod N) mod N = (t::nat)"
proof -
  have "h + (t + N - h) mod N < 2 * N"
    using assms by (simp add: ring_len_cases)
  from mod_lt2 [OF this] show ?thesis
    using assms by (auto simp: ring_len_cases)
qed

lemma ring_idx_neq:
  assumes "h < N" "t < N" "i < (t + N - h) mod N"
  shows "(h + i) mod N \<noteq> (t::nat)"
proof -
  have i: "i < (if h \<le> t then t - h else t + N - h)"
    using assms by (simp add: ring_len_cases)
  then have "h + i < 2 * N" using assms by (auto split: if_splits)
  from mod_lt2 [OF this] show ?thesis
    using assms i by (auto split: if_splits)
qed

lemma ring_len_push:
  assumes "h < N" "t < N" "(t + N - h) mod N \<noteq> N - 1"
  shows "((t + 1) mod N + N - h) mod N = (t + N - h) mod N + (1::nat)"
proof -
  have a: "(t + 1) mod N = (if t + 1 < N then t + 1 else t + 1 - N)"
    using assms by (intro mod_lt2) arith
  have "(t + 1) mod N < N" using assms by simp
  from ring_len_cases [OF assms(1) this] ring_len_cases [OF assms(1,2)] assms a
  show ?thesis by (auto split: if_splits)
qed

lemma ring_len_pop:
  assumes "h < N" "t < N" "h \<noteq> t"
  shows "(t + N - (h + 1) mod N) mod N + 1 = (t + N - h) mod (N::nat)"
proof -
  have a: "(h + 1) mod N = (if h + 1 < N then h + 1 else h + 1 - N)"
    using assms by (intro mod_lt2) arith
  have "(h + 1) mod N < N" using assms by simp
  from ring_len_cases [OF this assms(2)] ring_len_cases [OF assms(1,2)] assms a
  show ?thesis by (auto split: if_splits)
qed

lemma ring_len_zero:
  assumes "h < N" "t < N"
  shows "((t + N - h) mod N = 0) = (h = (t::nat))"
  using ring_len_cases [OF assms] assms by (auto split: if_splits)

lemma length_contents: "length (contents N s) = (unat (tail s) + N - unat (head s)) mod N"
  by (simp add: contents_def)

lemma length_contents_less: "0 < N \<Longrightarrow> length (contents N s) < N"
  by (simp add: length_contents)

lemma push_state:
  assumes "k < 64" "ring_inv (2 ^ k) s"
  shows "push (2 ^ k) s x =
    (if length (contents (2 ^ k) s) = 2 ^ k - 1 then (False, s)
     else (True, s\<lparr>buffer := (buffer s)[unat (tail s) := x],
                    tail := (tail s + 1) AND (2 ^ k - 1)\<rparr>))"
proof -
  let ?N = "(2::nat) ^ k"
  have h: "unat (head s) < ?N" and t: "unat (tail s) < ?N"
    using assms(2) by (simp_all add: ring_inv_def)
  have full: "((tail s + 1) AND (2 ^ k - 1) = head s) \<longleftrightarrow> (unat (tail s) + 1) mod ?N = unat (head s)"
    by (simp only: word_unat_eq_iff unat_next_index [OF assms(1)])
  have a: "(unat (tail s) + 1) mod ?N = (if unat (tail s) + 1 < ?N then unat (tail s) + 1 else unat (tail s) + 1 - ?N)"
    using t by (intro mod_lt2) arith
  have "(unat (tail s) + 1) mod ?N = unat (head s) \<longleftrightarrow>
        (unat (tail s) + ?N - unat (head s)) mod ?N = ?N - 1"
    using ring_len_cases [OF h t] h t a by (auto split: if_splits)
  then show ?thesis
    using full by (simp add: push_def Let_def length_contents)
qed


lemma push_contents:
  assumes "k < 64" "ring_inv (2 ^ k) s" "length (contents (2 ^ k) s) \<noteq> 2 ^ k - 1"
  shows "ring_inv (2 ^ k) (snd (push (2 ^ k) s x))
       \<and> contents (2 ^ k) (snd (push (2 ^ k) s x)) = contents (2 ^ k) s @ [x]"
proof -
  let ?N = "(2::nat) ^ k"
  let ?h = "unat (head s)" and ?t = "unat (tail s)"
  let ?s = "s\<lparr>buffer := (buffer s)[?t := x], tail := (tail s + 1) AND (2 ^ k - 1)\<rparr>"
  have h: "?h < ?N" and t: "?t < ?N" and len: "length (buffer s) = ?N"
    using assms(2) by (simp_all add: ring_inv_def)
  have eq: "snd (push (2 ^ k) s x) = ?s"
    using assms by (simp add: push_state)
  have t': "unat (tail ?s) = (?t + 1) mod ?N"
    by (simp add: unat_next_index [OF assms(1)])
  have nf: "(?t + ?N - ?h) mod ?N \<noteq> ?N - 1"
    using assms(3) by (simp add: length_contents)
  have "unat ((tail s + 1) AND (2 ^ k - 1)) < ?N"
    by (simp add: unat_next_index [OF assms(1)])
  then have inv: "ring_inv ?N ?s"
    using h len by (simp add: ring_inv_def)
  have l': "(unat (tail ?s) + ?N - unat (head ?s)) mod ?N = (?t + ?N - ?h) mod ?N + 1"
    using ring_len_push [OF h t nf] by (simp add: unat_next_index [OF assms(1)])
  have old: "map (\<lambda>i. (buffer s)[?t := x] ! ((?h + i) mod ?N)) [0..<(?t + ?N - ?h) mod ?N]
      = map (\<lambda>i. buffer s ! ((?h + i) mod ?N)) [0..<(?t + ?N - ?h) mod ?N]"
  proof (rule map_cong [OF refl])
    fix i
    assume "i \<in> set [0..<(?t + ?N - ?h) mod ?N]"
    then have "i < (?t + ?N - ?h) mod ?N"
      by simp
    from ring_idx_neq [OF h t this]
    show "(buffer s)[?t := x] ! ((?h + i) mod ?N) = buffer s ! ((?h + i) mod ?N)"
      by simp
  qed
  have new: "(buffer s)[?t := x] ! ((?h + (?t + ?N - ?h) mod ?N) mod ?N) = x"
    using t len by (simp add: ring_idx_end [OF h t])
  have "contents ?N ?s = contents ?N s @ [x]"
    unfolding contents_def l' using old new by simp
  then show ?thesis
    using inv eq by simp
qed

lemma pop_state:
  assumes "k < 64" "ring_inv (2 ^ k) s"
  shows "pop (2 ^ k) s =
    (case contents (2 ^ k) s of [] \<Rightarrow> (None, s)
     | y # ys \<Rightarrow> (Some y, s\<lparr>head := (head s + 1) AND (2 ^ k - 1)\<rparr>))"
    and "ring_inv (2 ^ k) (snd (pop (2 ^ k) s))"
    and "contents (2 ^ k) (snd (pop (2 ^ k) s)) = tl (contents (2 ^ k) s)"
proof -
  let ?N = "(2::nat) ^ k"
  let ?h = "unat (head s)" and ?t = "unat (tail s)"
  let ?s = "s\<lparr>head := (head s + 1) AND (2 ^ k - 1)\<rparr>"
  have h: "?h < ?N" and t: "?t < ?N" and len: "length (buffer s) = ?N"
    using assms(2) by (simp_all add: ring_inv_def)
  have emp: "(head s = tail s) = (contents ?N s = [])"
    using ring_len_zero [OF h t] by (simp add: contents_def word_unat_eq_iff)
  have h': "unat (head ?s) = (?h + 1) mod ?N"
    by (simp add: unat_next_index [OF assms(1)])
  show 1: "pop (2 ^ k) s =
    (case contents (2 ^ k) s of [] \<Rightarrow> (None, s)
     | y # ys \<Rightarrow> (Some y, s\<lparr>head := (head s + 1) AND (2 ^ k - 1)\<rparr>))"
  proof (cases "contents ?N s")
    case Nil
    then show ?thesis using emp by (simp add: pop_def Let_def)
  next
    case (Cons y ys)
    then have "0 < length (contents ?N s)"
      by simp
    then have "0 < (?t + ?N - ?h) mod ?N"
      by (simp only: length_contents)
    then have "contents ?N s ! 0 = buffer s ! ?h"
      using h by (simp add: contents_def)
    then have "y = buffer s ! ?h"
      using Cons by simp
    then show ?thesis using emp Cons by (simp add: pop_def Let_def)
  qed
  show "ring_inv (2 ^ k) (snd (pop (2 ^ k) s))"
    using assms(2) h' by (cases "contents ?N s") (simp_all add: 1 ring_inv_def)
  show "contents (2 ^ k) (snd (pop (2 ^ k) s)) = tl (contents (2 ^ k) s)"
  proof (cases "contents ?N s")
    case Nil
    then show ?thesis by (simp add: 1)
  next
    case (Cons y ys)
    then have ne: "head s \<noteq> tail s" using emp by simp
    then have "?h \<noteq> ?t" by (simp add: word_unat_eq_iff)
    note lp = ring_len_pop [OF h t this]
    let ?l = "(?t + ?N - (?h + 1) mod ?N) mod ?N"
    have l: "(?t + ?N - ?h) mod ?N = Suc ?l"
      using lp by simp
    have "tl (contents ?N s) = map (\<lambda>i. buffer s ! ((?h + i) mod ?N)) [Suc 0..<Suc ?l]"
      unfolding contents_def l by (simp add: upt_conv_Cons del: upt_Suc)
    also have "\<dots> = map (\<lambda>i. buffer s ! ((?h + i) mod ?N)) (map Suc [0..<?l])"
      by (simp only: map_Suc_upt)
    also have "\<dots> = map (\<lambda>i. buffer s ! (((?h + 1) mod ?N + i) mod ?N)) [0..<?l]"
      by (simp add: mod_add_left_eq)
    also have "\<dots> = contents ?N ?s"
      by (simp add: contents_def unat_next_index [OF assms(1)])
    finally have "contents ?N ?s = tl (contents ?N s)"
      by simp
    then show ?thesis using Cons by (simp add: 1)
  qed
qed


lemma push_fst:
  assumes "k < 64" "ring_inv (2 ^ k) s"
  shows "fst (push (2 ^ k) s x) = (length (contents (2 ^ k) s) \<noteq> 2 ^ k - 1)"
    and "length (contents (2 ^ k) s) = 2 ^ k - 1 \<Longrightarrow> snd (push (2 ^ k) s x) = s"
  using assms by (simp_all add: push_state)

lemma ring_inv_new:
  assumes "k < 64"
  shows "ring_inv (2 ^ k) (CircularBuffer_new (2 ^ k) d)"
    and "contents (2 ^ k) (CircularBuffer_new (2 ^ k) d) = []"
  using assms by (simp_all add: ring_inv_def CircularBuffer_new_def contents_def unat_pow2)

lemma run_refines:
  assumes "k < 64" "ring_inv (2 ^ k) s"
  shows "ring_inv (2 ^ k) (snd (run (2 ^ k) s ops))
       \<and> contents (2 ^ k) s @ pushed (fst (run (2 ^ k) s ops))
           = popped (fst (run (2 ^ k) s ops)) @ contents (2 ^ k) (snd (run (2 ^ k) s ops))"
  using assms(2)
proof (induction ops arbitrary: s)
  case Nil
  then show ?case by simp
next
  case (Cons a ops)
  show ?case
  proof (cases a)
    case (Push x)
    show ?thesis
    proof (cases "length (contents (2 ^ k) s) = 2 ^ k - 1")
      case True
      then have "push (2 ^ k) s x = (False, s)"
        using assms(1) Cons.prems by (simp add: push_state)
      then show ?thesis
        using Cons.IH [OF Cons.prems] Push by (simp add: split_beta)
    next
      case False
      obtain s1 where p: "push (2 ^ k) s x = (True, s1)"
        using False assms(1) Cons.prems by (simp add: push_state)
      from push_contents [OF assms(1) Cons.prems False, of x] p
      have s1: "ring_inv (2 ^ k) s1" "contents (2 ^ k) s1 = contents (2 ^ k) s @ [x]"
        by simp_all
      show ?thesis
        using Cons.IH [OF s1(1)] s1(2) Push p by (simp add: split_beta)
    qed
  next
    case Pop
    obtain r s1 where p: "pop (2 ^ k) s = (r, s1)"
      by (cases "pop (2 ^ k) s")
    from pop_state [OF assms(1) Cons.prems] p
    have s1: "ring_inv (2 ^ k) s1" "contents (2 ^ k) s1 = tl (contents (2 ^ k) s)"
      and r: "r = (case contents (2 ^ k) s of [] \<Rightarrow> None | y # ys \<Rightarrow> Some y)"
      by (simp_all split: list.splits)
    show ?thesis
      using Cons.IH [OF s1(1)] s1(2) r Pop p
      by (cases "contents (2 ^ k) s") (simp_all add: split_beta)
  qed
qed

lemma run_pushes:
  assumes "k < 64" "ring_inv (2 ^ k) s" "length (contents (2 ^ k) s) + length xs \<le> 2 ^ k - 1"
  shows "fst (run (2 ^ k) s (map Push xs)) = map (\<lambda>x. Pushed x True) xs
       \<and> ring_inv (2 ^ k) (snd (run (2 ^ k) s (map Push xs)))
       \<and> contents (2 ^ k) (snd (run (2 ^ k) s (map Push xs))) = contents (2 ^ k) s @ xs"
  using assms(2,3)
proof (induction xs arbitrary: s)
  case Nil
  then show ?case by simp
next
  case (Cons x xs)
  have nf: "length (contents (2 ^ k) s) \<noteq> 2 ^ k - 1"
    using Cons.prems(2) by simp
  obtain s1 where p: "push (2 ^ k) s x = (True, s1)"
    using nf assms(1) Cons.prems(1) by (simp add: push_state)
  from push_contents [OF assms(1) Cons.prems(1) nf, of x] p
  have s1: "ring_inv (2 ^ k) s1" "contents (2 ^ k) s1 = contents (2 ^ k) s @ [x]"
    by simp_all
  have "length (contents (2 ^ k) s1) + length xs \<le> 2 ^ k - 1"
    using Cons.prems(2) s1(2) by simp
  from Cons.IH [OF s1(1) this] show ?case
    using p s1(2) by (simp add: split_beta)
qed

lemma unat_size_spsc:
  assumes "k < 64" "ring_inv (2 ^ k) s"
  shows "unat (size_spsc (2 ^ k) s) = length (contents (2 ^ k) s)"
proof -
  let ?N = "(2::nat) ^ k"
  let ?h = "unat (head s)" and ?t = "unat (tail s)"
  have h: "?h < ?N" and t: "?t < ?N"
    using assms(2) by (simp_all add: ring_inv_def)
  have dvd: "?N dvd 2 ^ 64"
    using assms(1) by (intro le_imp_power_dvd) simp
  have N64: "?N \<le> 2 ^ 64"
    using assms(1) by (intro power_increasing) simp_all
  have "(tail s - head s) AND (2 ^ k - 1) = take_bit k (tail s - head s)"
    by (simp add: take_bit_eq_mask mask_eq_exp_minus_1)
  then have "unat (size_spsc (2 ^ k) s) = take_bit k (unat (tail s - head s))"
    by (simp only: size_spsc_def unsigned_take_bit_eq)
  also have "\<dots> = unat (tail s - head s) mod ?N"
    by (simp only: take_bit_eq_mod)
  finally have sz: "unat (size_spsc (2 ^ k) s) = unat (tail s - head s) mod ?N" .
  have sub: "unat (tail s - head s) = (if ?h \<le> ?t then ?t - ?h else ?t + 2 ^ 64 - ?h)"
    by (simp only: unat_sub_if' len_of_numeral_defs) simp
  show ?thesis
  proof (cases "?h \<le> ?t")
    case True
    then have "unat (tail s - head s) mod ?N = ?t - ?h"
      using t sub by simp
    then show ?thesis
      using True sz ring_len_cases [OF h t] by (simp add: length_contents)
  next
    case False
    have "?N dvd 2 ^ 64 - ?N"
      using dvd by (simp add: dvd_diff_nat)
    then obtain m where m: "2 ^ 64 - ?N = ?N * m" ..
    have "?t + 2 ^ 64 - ?h = (?t + ?N - ?h) + (2 ^ 64 - ?N)"
      using h t N64 by linarith
    then have "(?t + 2 ^ 64 - ?h) mod ?N = (?t + ?N - ?h) mod ?N"
      by (simp only: m mod_mult_self2)
    then show ?thesis
      using False sz sub by (simp add: length_contents)
  qed
qed

lemma empty_spsc_contents:
  assumes "ring_inv N s"
  shows "empty_spsc s = (contents N s = [])"
proof -
  have h: "unat (head s) < N" and t: "unat (tail s) < N"
    using assms by (simp_all add: ring_inv_def)
  show ?thesis
    using ring_len_zero [OF h t] by (simp add: empty_spsc_def contents_def word_unat_eq_iff)
qed

subsection \<open>Capacity and order\<close>

text \<open>
  C5: for a ring of capacity \<open>N = 2 ^ k\<close>, in every state reached from the new ring by a
  sequence of pushes and pops, the number of elements held (successful pushes minus
  successful pops, which is the length of the ring's contents and the value of \<open>size()\<close>)
  is at most \<open>N - 1\<close>; and starting from an empty ring, that is the new ring or any ring
  reached from it for which \<open>empty()\<close> holds (wherever its head and tail stand),
  \<open>N - 1\<close> consecutive pushes all succeed and the next push fails.
\<close>

theorem spsc_capacity:
  assumes "k < 64"
  shows "length (pushed (fst (run (2 ^ k) (CircularBuffer_new (2 ^ k) d) ops)))
           = length (popped (fst (run (2 ^ k) (CircularBuffer_new (2 ^ k) d) ops)))
             + length (contents (2 ^ k) (snd (run (2 ^ k) (CircularBuffer_new (2 ^ k) d) ops)))
       \<and> length (contents (2 ^ k) (snd (run (2 ^ k) (CircularBuffer_new (2 ^ k) d) ops)))
           \<le> 2 ^ k - 1
       \<and> unat (size_spsc (2 ^ k) (snd (run (2 ^ k) (CircularBuffer_new (2 ^ k) d) ops)))
           = length (contents (2 ^ k) (snd (run (2 ^ k) (CircularBuffer_new (2 ^ k) d) ops)))
       \<and> (length xs = 2 ^ k - 1 \<longrightarrow>
            fst (run (2 ^ k) (CircularBuffer_new (2 ^ k) d) (map Push xs))
              = map (\<lambda>x. Pushed x True) xs
          \<and> fst (push (2 ^ k) (snd (run (2 ^ k) (CircularBuffer_new (2 ^ k) d) (map Push xs))) x)
              = False)
       \<and> (empty_spsc (snd (run (2 ^ k) (CircularBuffer_new (2 ^ k) d) ops0))
            \<and> length xs = 2 ^ k - 1 \<longrightarrow>
            fst (run (2 ^ k) (snd (run (2 ^ k) (CircularBuffer_new (2 ^ k) d) ops0)) (map Push xs))
              = map (\<lambda>x. Pushed x True) xs
          \<and> fst (push (2 ^ k)
                (snd (run (2 ^ k) (snd (run (2 ^ k) (CircularBuffer_new (2 ^ k) d) ops0))
                  (map Push xs))) x)
              = False)"
proof -
  let ?new = "CircularBuffer_new (2 ^ k) d :: 'a CircularBuffer"
  note new = ring_inv_new [OF assms, of d]
  have "ring_inv (2 ^ k) (snd (run (2 ^ k) ?new ops))"
    using run_refines [OF assms new(1), of ops] by (rule conjunct1)
  then have sz: "unat (size_spsc (2 ^ k) (snd (run (2 ^ k) ?new ops)))
      = length (contents (2 ^ k) (snd (run (2 ^ k) ?new ops)))"
    by (rule unat_size_spsc [OF assms])
  from run_refines [OF assms new(1), of ops]
  have "pushed (fst (run (2 ^ k) ?new ops))
      = popped (fst (run (2 ^ k) ?new ops)) @ contents (2 ^ k) (snd (run (2 ^ k) ?new ops))"
    by (simp add: new(2))
  then have "length (pushed (fst (run (2 ^ k) ?new ops)))
      = length (popped (fst (run (2 ^ k) ?new ops)) @ contents (2 ^ k) (snd (run (2 ^ k) ?new ops)))"
    by (rule arg_cong)
  then have count: "length (pushed (fst (run (2 ^ k) ?new ops)))
      = length (popped (fst (run (2 ^ k) ?new ops)))
        + length (contents (2 ^ k) (snd (run (2 ^ k) ?new ops)))"
    by simp
  have "length (contents (2 ^ k) (snd (run (2 ^ k) ?new ops))) < 2 ^ k"
    by (rule length_contents_less) simp
  then have bound: "length (contents (2 ^ k) (snd (run (2 ^ k) ?new ops))) \<le> 2 ^ k - 1"
    by simp
  have fill: "fst (run (2 ^ k) ?new (map Push xs)) = map (\<lambda>x. Pushed x True) xs
      \<and> fst (push (2 ^ k) (snd (run (2 ^ k) ?new (map Push xs))) x) = False"
    if len: "length xs = 2 ^ k - 1"
  proof -
    have "length (contents (2 ^ k) ?new) + length xs \<le> 2 ^ k - 1"
      using len by (simp add: new(2))
    from run_pushes [OF assms new(1) this]
    have r: "fst (run (2 ^ k) ?new (map Push xs)) = map (\<lambda>x. Pushed x True) xs"
      and i: "ring_inv (2 ^ k) (snd (run (2 ^ k) ?new (map Push xs)))"
      and c: "contents (2 ^ k) (snd (run (2 ^ k) ?new (map Push xs))) = xs"
      by (simp_all add: new(2))
    have "fst (push (2 ^ k) (snd (run (2 ^ k) ?new (map Push xs))) x) = False"
      using push_fst(1) [OF assms i, of x] c len by simp
    with r show ?thesis by simp
  qed
  have refill: "fst (run (2 ^ k) (snd (run (2 ^ k) ?new ops0)) (map Push xs))
        = map (\<lambda>x. Pushed x True) xs
      \<and> fst (push (2 ^ k) (snd (run (2 ^ k) (snd (run (2 ^ k) ?new ops0)) (map Push xs))) x)
        = False"
    if emp: "empty_spsc (snd (run (2 ^ k) ?new ops0))" and len: "length xs = 2 ^ k - 1"
  proof -
    let ?s0 = "snd (run (2 ^ k) ?new ops0)"
    have inv0: "ring_inv (2 ^ k) ?s0"
      using run_refines [OF assms new(1), of ops0] by (rule conjunct1)
    have c0: "contents (2 ^ k) ?s0 = []"
      using emp empty_spsc_contents [OF inv0] by simp
    have "length (contents (2 ^ k) ?s0) + length xs \<le> 2 ^ k - 1"
      using len by (simp add: c0)
    from run_pushes [OF assms inv0 this]
    have r: "fst (run (2 ^ k) ?s0 (map Push xs)) = map (\<lambda>x. Pushed x True) xs"
      and i: "ring_inv (2 ^ k) (snd (run (2 ^ k) ?s0 (map Push xs)))"
      and c: "contents (2 ^ k) (snd (run (2 ^ k) ?s0 (map Push xs))) = xs"
      by (simp_all add: c0)
    have "fst (push (2 ^ k) (snd (run (2 ^ k) ?s0 (map Push xs))) x) = False"
      using push_fst(1) [OF assms i, of x] c len by simp
    with r show ?thesis by simp
  qed
  show ?thesis
    using count bound sz fill refill by blast
qed

theorem spsc_capacity_witness:
  "(2::nat) < 64 \<and> length [20, 30, 40 :: nat] = 2 ^ 2 - 1
   \<and> empty_spsc (snd (run (2 ^ 2) (CircularBuffer_new (2 ^ 2) 0) [Push (10::nat), Pop]))
   \<and> head (snd (run (2 ^ 2) (CircularBuffer_new (2 ^ 2) 0) [Push (10::nat), Pop])) = 1
   \<and> fst (run (2 ^ 2) (snd (run (2 ^ 2) (CircularBuffer_new (2 ^ 2) 0) [Push (10::nat), Pop]))
        (map Push [20, 30, 40]))
       = [Pushed 20 True, Pushed 30 True, Pushed 40 True]
   \<and> fst (push (2 ^ 2)
        (snd (run (2 ^ 2) (snd (run (2 ^ 2) (CircularBuffer_new (2 ^ 2) 0) [Push (10::nat), Pop]))
          (map Push [20, 30, 40]))) 50)
       = False
   \<and> fst (run (2 ^ 2) (CircularBuffer_new (2 ^ 2) 0) (map Push [20, 30, 40 :: nat]))
       = [Pushed 20 True, Pushed 30 True, Pushed 40 True]
   \<and> fst (push (2 ^ 2)
        (snd (run (2 ^ 2) (CircularBuffer_new (2 ^ 2) 0) (map Push [20, 30, 40 :: nat]))) 50)
       = False"
proof -
  have k: "(2::nat) < 64" and l: "length [20, 30, 40 :: nat] = 2 ^ 2 - 1"
    by simp_all
  have e: "empty_spsc (snd (run (2 ^ 2) (CircularBuffer_new (2 ^ 2) 0) [Push (10::nat), Pop]))"
    and h: "head (snd (run (2 ^ 2) (CircularBuffer_new (2 ^ 2) 0) [Push (10::nat), Pop])) = 1"
    by (simp_all add: push_def pop_def CircularBuffer_new_def Let_def empty_spsc_def)
  show ?thesis
    using k l e h
      spsc_capacity [OF k, of "0::nat" "[]" "[20, 30, 40]" 50 "[Push 10, Pop]"]
    by simp
qed

text \<open>
  C9: in every sequential execution of the SPSC ring of capacity \<open>2 ^ k\<close>, started on the
  new ring, the values come out in the order they went in: there are at most as many
  successful pops as successful pushes, and the \<open>j\<close>-th successful pop returns the value
  stored by the \<open>j\<close>-th successful push.
\<close>

theorem spsc_fifo:
  assumes "k < 64"
  shows "length (popped (fst (run (2 ^ k) (CircularBuffer_new (2 ^ k) d) ops)))
           \<le> length (pushed (fst (run (2 ^ k) (CircularBuffer_new (2 ^ k) d) ops)))
       \<and> (\<forall>j < length (popped (fst (run (2 ^ k) (CircularBuffer_new (2 ^ k) d) ops))).
            popped (fst (run (2 ^ k) (CircularBuffer_new (2 ^ k) d) ops)) ! j
              = pushed (fst (run (2 ^ k) (CircularBuffer_new (2 ^ k) d) ops)) ! j)"
proof -
  let ?new = "CircularBuffer_new (2 ^ k) d :: 'a CircularBuffer"
  note new = ring_inv_new [OF assms, of d]
  from run_refines [OF assms new(1), of ops]
  have eq: "pushed (fst (run (2 ^ k) ?new ops))
      = popped (fst (run (2 ^ k) ?new ops)) @ contents (2 ^ k) (snd (run (2 ^ k) ?new ops))"
    by (simp add: new(2))
  show ?thesis
    unfolding eq by (simp add: nth_append)
qed

theorem spsc_fifo_witness:
  "(2::nat) < 64
   \<and> pushed (fst (run (2 ^ 2) (CircularBuffer_new (2 ^ 2) (0::nat))
        [Push 1, Push 2, Pop, Push 3, Push 4, Push 5, Pop, Pop, Pop, Pop])) = [1, 2, 3, 4]
   \<and> popped (fst (run (2 ^ 2) (CircularBuffer_new (2 ^ 2) (0::nat))
        [Push 1, Push 2, Pop, Push 3, Push 4, Push 5, Pop, Pop, Pop, Pop])) = [1, 2, 3, 4]
   \<and> popped (fst (run (2 ^ 2) (CircularBuffer_new (2 ^ 2) (0::nat))
        [Push 1, Push 2, Pop, Push 3, Push 4, Push 5, Pop, Pop, Pop, Pop])) ! 3
      = pushed (fst (run (2 ^ 2) (CircularBuffer_new (2 ^ 2) (0::nat))
        [Push 1, Push 2, Pop, Push 3, Push 4, Push 5, Pop, Pop, Pop, Pop])) ! 3"
proof -
  have k: "(2::nat) < 64"
    by simp
  have ev: "fst (run (2 ^ 2) (CircularBuffer_new (2 ^ 2) (0::nat))
        [Push 1, Push 2, Pop, Push 3, Push 4, Push 5, Pop, Pop, Pop, Pop])
      = [Pushed 1 True, Pushed 2 True, Popped (Some 1), Pushed 3 True, Pushed 4 True,
         Pushed 5 False, Popped (Some 2), Popped (Some 3), Popped (Some 4), Popped None]"
    by (simp add: push_def pop_def CircularBuffer_new_def Let_def)
  have len: "length (popped (fst (run (2 ^ 2) (CircularBuffer_new (2 ^ 2) (0::nat))
        [Push 1, Push 2, Pop, Push 3, Push 4, Push 5, Pop, Pop, Pop, Pop]))) = 4"
    unfolding ev by simp
  show ?thesis
    using k len spsc_fifo [OF k, of "0::nat"
        "[Push 1, Push 2, Pop, Push 3, Push 4, Push 5, Pop, Pop, Pop, Pop]"]
    unfolding ev by simp
qed

section \<open>MPSC ring: properties\<close>

text \<open>
  For every capacity \<open>2 ^ k\<close>: every slot of a new ring has sequence 0, the first push
  succeeds, and for \<open>k \<ge> 1\<close> the second push returns \<open>false\<close>.
\<close>

lemma one_and_mask:
  assumes "0 < k" "k < 64"
  shows "(1::u64) AND (2 ^ k - 1) = 1"
proof -
  have "(1::u64) AND (2 ^ k - 1) = take_bit k 1"
    by (simp add: take_bit_eq_mask mask_eq_exp_minus_1)
  also have "\<dots> = 1"
    using assms(1) by simp
  finally show ?thesis .
qed

lemma mpsc_new_entries:
  "i < unat SIZE \<Longrightarrow>
   mpsc_buffer (MPSCCircularBuffer_new SIZE d) ! i = \<lparr>entry_sequence = 0, entry_data = d\<rparr>"
  "length (mpsc_buffer (MPSCCircularBuffer_new SIZE d)) = unat SIZE"
  "mpsc_tail (MPSCCircularBuffer_new SIZE d) = 0"
  by (simp_all add: MPSCCircularBuffer_new_def)

lemma mpsc_first_push:
  assumes "k < 64"
  shows "mpsc_push (2 ^ k) (MPSCCircularBuffer_new (2 ^ k) d) a =
     Some (True, (MPSCCircularBuffer_new (2 ^ k) d)
       \<lparr>mpsc_tail := 1,
        mpsc_buffer := (mpsc_buffer (MPSCCircularBuffer_new (2 ^ k) d))
           [0 := \<lparr>entry_sequence = 1, entry_data = a\<rparr>]\<rparr>)"
proof -
  have "0 < unat (2 ^ k :: u64)"
    using assms by (simp add: unat_pow2)
  then show ?thesis
    unfolding mpsc_push_def
    by (subst mpsc_push_loop.simps) (simp add: mpsc_new_entries seq_diff_def)
qed

lemma mpsc_second_push:
  assumes "0 < k" "k < 64"
  shows "mpsc_push (2 ^ k) ((MPSCCircularBuffer_new (2 ^ k) d)
       \<lparr>mpsc_tail := 1,
        mpsc_buffer := (mpsc_buffer (MPSCCircularBuffer_new (2 ^ k) d))
           [0 := \<lparr>entry_sequence = 1, entry_data = a\<rparr>]\<rparr>) b =
     Some (False, (MPSCCircularBuffer_new (2 ^ k) d)
       \<lparr>mpsc_tail := 1,
        mpsc_buffer := (mpsc_buffer (MPSCCircularBuffer_new (2 ^ k) d))
           [0 := \<lparr>entry_sequence = 1, entry_data = a\<rparr>]\<rparr>)"
proof -
  have "(2::nat) ^ 1 \<le> 2 ^ k"
    using assms(1) by (intro power_increasing) simp_all
  then have 1: "1 < unat (2 ^ k :: u64)"
    using assms(2) by (simp add: unat_pow2)
  have e1: "mpsc_buffer (MPSCCircularBuffer_new (2 ^ k) d) ! Suc 0
      = \<lparr>entry_sequence = 0, entry_data = d\<rparr>"
    using mpsc_new_entries(1) [of 1 "2 ^ k" d] 1 by simp
  show ?thesis
    unfolding mpsc_push_def
    by (subst mpsc_push_loop.simps)
      (simp add: one_and_mask [OF assms] e1 seq_diff_def)
qed

lemma mpsc_new_4:
  "MPSCCircularBuffer_new 4 d =
     \<lparr>mpsc_head = 0, mpsc_tail = 0,
      mpsc_buffer = [\<lparr>entry_sequence = 0, entry_data = d\<rparr>, \<lparr>entry_sequence = 0, entry_data = d\<rparr>,
                     \<lparr>entry_sequence = 0, entry_data = d\<rparr>, \<lparr>entry_sequence = 0, entry_data = d\<rparr>]\<rparr>"
proof -
  have "replicate 4 x = [x, x, x, x]" for x :: "'a MPSC_Entry"
    by (simp add: numeral_eq_Suc)
  then show ?thesis
    by (simp add: MPSCCircularBuffer_new_def)
qed

text \<open>
  C1 says that slot \<open>i\<close> of a new ring has sequence \<open>i\<close>, so that \<open>N - 1\<close> pushes in a row
  succeed. The constructor stores 0 in every slot. For capacity 4 the slots have the
  sequences 0, 0, 0, 0; the first push succeeds and moves the tail to 1; the second push
  finds sequence 0 at slot 1, computes a negative difference and reports a full ring.
\<close>

theorem mpsc_second_push_fails:
  "map entry_sequence (mpsc_buffer (MPSCCircularBuffer_new 4 (0::nat))) = [0, 0, 0, 0]
   \<and> mpsc_push 4 (MPSCCircularBuffer_new 4 (0::nat)) 7 =
       Some (True,
         \<lparr>mpsc_head = 0, mpsc_tail = 1,
          mpsc_buffer = [\<lparr>entry_sequence = 1, entry_data = 7\<rparr>, \<lparr>entry_sequence = 0, entry_data = 0\<rparr>,
                         \<lparr>entry_sequence = 0, entry_data = 0\<rparr>, \<lparr>entry_sequence = 0, entry_data = 0\<rparr>]\<rparr>)
   \<and> mpsc_push 4
        \<lparr>mpsc_head = 0, mpsc_tail = 1,
         mpsc_buffer = [\<lparr>entry_sequence = 1, entry_data = 7::nat\<rparr>, \<lparr>entry_sequence = 0, entry_data = 0\<rparr>,
                        \<lparr>entry_sequence = 0, entry_data = 0\<rparr>, \<lparr>entry_sequence = 0, entry_data = 0\<rparr>]\<rparr>
        8 =
       Some (False,
         \<lparr>mpsc_head = 0, mpsc_tail = 1,
          mpsc_buffer = [\<lparr>entry_sequence = 1, entry_data = 7\<rparr>, \<lparr>entry_sequence = 0, entry_data = 0\<rparr>,
                         \<lparr>entry_sequence = 0, entry_data = 0\<rparr>, \<lparr>entry_sequence = 0, entry_data = 0\<rparr>]\<rparr>)"
proof -
  have 1: "map entry_sequence (mpsc_buffer (MPSCCircularBuffer_new 4 (0::nat))) = [0, 0, 0, 0]"
    by (simp add: mpsc_new_4)
  have 2: "mpsc_push 4 (MPSCCircularBuffer_new 4 (0::nat)) 7 =
       Some (True,
         \<lparr>mpsc_head = 0, mpsc_tail = 1,
          mpsc_buffer = [\<lparr>entry_sequence = 1, entry_data = 7\<rparr>, \<lparr>entry_sequence = 0, entry_data = 0\<rparr>,
                         \<lparr>entry_sequence = 0, entry_data = 0\<rparr>, \<lparr>entry_sequence = 0, entry_data = 0\<rparr>]\<rparr>)"
    unfolding mpsc_push_def mpsc_new_4
    by (subst mpsc_push_loop.simps) (simp add: seq_diff_def)
  have 3: "mpsc_push 4
        \<lparr>mpsc_head = 0, mpsc_tail = 1,
         mpsc_buffer = [\<lparr>entry_sequence = 1, entry_data = 7\<rparr>, \<lparr>entry_sequence = 0, entry_data = 0\<rparr>,
                        \<lparr>entry_sequence = 0, entry_data = 0\<rparr>, \<lparr>entry_sequence = 0, entry_data = 0\<rparr>]\<rparr>
        (8::nat) =
       Some (False,
         \<lparr>mpsc_head = 0, mpsc_tail = 1,
          mpsc_buffer = [\<lparr>entry_sequence = 1, entry_data = 7\<rparr>, \<lparr>entry_sequence = 0, entry_data = 0\<rparr>,
                         \<lparr>entry_sequence = 0, entry_data = 0\<rparr>, \<lparr>entry_sequence = 0, entry_data = 0\<rparr>]\<rparr>)"
    unfolding mpsc_push_def
    by (subst mpsc_push_loop.simps) (simp add: seq_diff_def)
  show ?thesis
    by (rule conjI [OF 1 conjI [OF 2 3]])
qed

section \<open>Symbol hash map: properties\<close>

lemma probe_index_in_range:
  fixes SIZE :: u64
  assumes "SIZE \<noteq> 0"
  shows "unat (x AND (SIZE - 1)) < unat SIZE"
proof -
  have "x AND (SIZE - 1) \<le> SIZE - 1"
    by (rule word_and_le1)
  moreover have "unat SIZE \<noteq> 0"
    using assms by (simp add: unsigned_eq_0_iff)
  then have "SIZE - 1 < SIZE"
    using assms by (simp add: word_less_nat_alt unat_minus_one)
  ultimately show ?thesis
    by (simp add: word_less_nat_alt word_le_nat_alt)
qed

lemma key_hash_not_EMPTY: "key_hash k \<noteq> EMPTY"
  by (simp add: key_hash_def Let_def EMPTY_def TOMBSTONE_def)

lemma insert_loop_preserves:
  assumes "insert_loop SIZE t h k v idx n = (ok, t')"
  shows "length t' = length t"
    and "entry_hash (t ! i) \<noteq> EMPTY \<Longrightarrow> \<not> (entry_hash (t ! i) = h \<and> entry_key (t ! i) = k)
         \<Longrightarrow> t' ! i = t ! i"
  using assms
proof (induction n arbitrary: idx)
  case 0
  { case 1 then show ?case by simp }
  { case 2 then show ?case by simp }
next
  case (Suc n)
  { case 1 then show ?case using Suc.IH(1) by (auto split: if_splits) }
  { case 2 then show ?case using Suc.IH(2)
      by (cases "i = unat idx") (auto split: if_splits) }
qed

lemma insert_loop_find_loop:
  assumes "SIZE \<noteq> 0" "length t = unat SIZE" "h \<noteq> EMPTY" "length k \<le> MAX_KEY_LEN - 1"
    and "unat idx < unat SIZE"
    and "insert_loop SIZE t h k v idx n = (True, t')"
  shows "\<exists>i < unat SIZE. find_loop SIZE t' h k idx n = Some i \<and> entry_value (t' ! i) = v"
  using assms(5,6)
proof (induction n arbitrary: idx)
  case 0
  then show ?case by simp
next
  case (Suc n)
  let ?e = "t ! unat idx"
  have in_range: "unat idx < length t"
    using Suc.prems(1) assms(2) by simp
  have cpy: "strncpy k (MAX_KEY_LEN - 1) = k"
    using assms(4) by (simp add: strncpy_def)
  consider (empty) "entry_hash ?e = EMPTY"
    | (match) "entry_hash ?e \<noteq> EMPTY" "entry_hash ?e = h \<and> entry_key ?e = k"
    | (other) "entry_hash ?e \<noteq> EMPTY" "\<not> (entry_hash ?e = h \<and> entry_key ?e = k)"
    by blast
  then show ?case
  proof cases
    case empty
    then have "t' = t[unat idx := \<lparr>entry_hash = h, entry_key = k, entry_value = v\<rparr>]"
      using Suc.prems(2) cpy by simp
    then show ?thesis
      using in_range assms(3) Suc.prems(1) by simp
  next
    case match
    then have "t' = t[unat idx := ?e\<lparr>entry_value := v\<rparr>]"
      using Suc.prems(2) by simp
    then show ?thesis
      using in_range assms(3) match Suc.prems(1) by simp
  next
    case other
    let ?idx = "(idx + 1) AND (SIZE - 1)"
    have rec: "insert_loop SIZE t h k v ?idx n = (True, t')"
      using Suc.prems(2) other by simp
    have same: "t' ! unat idx = ?e"
      using insert_loop_preserves(2) [OF rec other] .
    have "unat ?idx < unat SIZE"
      by (rule probe_index_in_range [OF assms(1)])
    from Suc.IH [OF this rec] show ?thesis
      using other same by auto
  qed
qed

text \<open>
  C3, as stated: for every string key \<open>K\<close>, after \<open>insert(K, V)\<close> returns true,
  \<open>find(K)\<close> returns a non-null pointer. For a key of 16 characters in a new table of 256
  slots, \<open>insert\<close> claims a slot, stores only the first 15 characters and returns true;
  \<open>find\<close> compares the stored key with the whole key and returns null.
\<close>

theorem insert_long_key_counterexample:
  "fst (insert_str 256 (LockFreeHashMap_new 256 0) ''ABCDEFGHIJKLMNOP'' (150::nat))
   \<and> find_str 256
        (snd (insert_str 256 (LockFreeHashMap_new 256 0) ''ABCDEFGHIJKLMNOP'' (150::nat)))
        ''ABCDEFGHIJKLMNOP'' = None"
  by code_simp

text \<open>
  C3, amended: for every table of \<open>SIZE\<close> slots, every string key \<open>K\<close> of at most 15
  characters and every value \<open>V\<close>, in a single-threaded execution, after \<open>insert(K, V)\<close>
  returns true, \<open>find(K)\<close> returns a non-null pointer (to the value of a slot of the table)
  whose dereferenced value equals \<open>V\<close>.
\<close>

theorem insert_then_find:
  assumes "SIZE \<noteq> 0" and "length entries = unat SIZE"
    and "length k \<le> MAX_KEY_LEN - 1"
    and "fst (insert_str SIZE entries k v)"
  shows "\<exists>i < unat SIZE.
           find_str SIZE (snd (insert_str SIZE entries k v)) k = Some i
         \<and> entry_value (snd (insert_str SIZE entries k v) ! i) = v"
proof -
  obtain t' where ins: "insert_loop SIZE entries (key_hash k) k v
      (key_hash k AND (SIZE - 1)) (unat SIZE) = (True, t')"
    using assms(4) by (cases "insert_str SIZE entries k v") (simp add: insert_str_def)
  have "unat (key_hash k AND (SIZE - 1)) < unat SIZE"
    by (rule probe_index_in_range [OF assms(1)])
  from insert_loop_find_loop [OF assms(1,2) key_hash_not_EMPTY assms(3) this ins]
  show ?thesis
    using ins by (simp add: insert_str_def find_str_def)
qed

theorem insert_then_find_witness:
  "(256::u64) \<noteq> 0
   \<and> length (LockFreeHashMap_new 256 (0::nat)) = unat (256::u64)
   \<and> length ''AAPL'' \<le> MAX_KEY_LEN - 1
   \<and> fst (insert_str 256 (LockFreeHashMap_new 256 0) ''AAPL'' (150::nat))
   \<and> (\<exists>i < unat (256::u64).
         find_str 256 (snd (insert_str 256 (LockFreeHashMap_new 256 0) ''AAPL'' (150::nat)))
           ''AAPL'' = Some i
       \<and> entry_value (snd (insert_str 256 (LockFreeHashMap_new 256 0) ''AAPL'' (150::nat)) ! i)
           = 150)"
proof -
  have 1: "(256::u64) \<noteq> 0"
    by simp
  have 2: "length (LockFreeHashMap_new 256 (0::nat)) = unat (256::u64)"
    by (simp add: LockFreeHashMap_new_def)
  have 3: "length ''AAPL'' \<le> MAX_KEY_LEN - 1"
    by (simp add: MAX_KEY_LEN_def)
  have 4: "fst (insert_str 256 (LockFreeHashMap_new 256 0) ''AAPL'' (150::nat))"
    by code_simp
  show ?thesis
    using 1 2 3 4 insert_then_find [OF 1 2 3 4] by blast
qed

section \<open>Slab object pool: properties\<close>

lemma pool_inv_new: "pool_inv PoolSize (MemoryPool_new PoolSize)"
  by (simp add: pool_inv_def MemoryPool_new_def)

lemma allocate_Some:
  assumes "pool_inv N p" "allocate p obj = (Some i, p')"
  shows "i < N" and "free_count p' + 1 = free_count p" and "pool_inv N p'"
  using assms by (auto simp: allocate_def Let_def pool_inv_def split: if_splits)

lemma allocate_None: "allocate p obj = (None, p') \<Longrightarrow> p' = p"
  by (auto simp: allocate_def Let_def split: if_splits)

lemma allocate_succeeds:
  "0 < free_count p \<Longrightarrow> fst (allocate p obj) \<noteq> None"
  by (simp add: allocate_def Let_def)

lemma allocate_all_success:
  assumes "pool_inv N p" "allocate_all p objs = (ptrs, p')" "\<forall>q \<in> set ptrs. q \<noteq> None"
  shows "free_count p' + length ptrs = free_count p \<and> pool_inv N p'
       \<and> (\<forall>q \<in> set ptrs. \<exists>i < N. q = Some i) \<and> length ptrs = length objs"
  using assms
proof (induction objs arbitrary: p ptrs p')
  case Nil
  then show ?case by simp
next
  case (Cons obj objs)
  obtain ptr p1 where a: "allocate p obj = (ptr, p1)"
    by (cases "allocate p obj")
  obtain ptrs1 p2 where r: "allocate_all p1 objs = (ptrs1, p2)"
    by (cases "allocate_all p1 objs")
  have eq: "ptrs = ptr # ptrs1" "p' = p2"
    using Cons.prems(2) a r by simp_all
  then obtain i where i: "ptr = Some i"
    using Cons.prems(3) by auto
  note s = allocate_Some [OF Cons.prems(1) a [unfolded i]]
  have "\<forall>q \<in> set ptrs1. q \<noteq> None"
    using Cons.prems(3) eq by simp
  from Cons.IH [OF s(3) r this] show ?case
    using s(1,2) eq i by auto
qed

lemma deallocate_all_count:
  assumes "free_count p + length qs \<le> N" "\<forall>q \<in> set qs. \<exists>i < N. q = Some i"
  shows "\<exists>p'. deallocate_all N p qs = Inr p' \<and> free_count p' = free_count p + length qs"
  using assms
proof (induction qs arbitrary: p)
  case Nil
  then show ?case by simp
next
  case (Cons q qs)
  then obtain i where i: "q = Some i" "i < N"
    by auto
  let ?p1 = "p\<lparr>storage := (storage p)[i := None], allocated := (allocated p)[i := False],
      free_list := (free_list p)[free_count p := i], free_count := free_count p + 1\<rparr>"
  have d: "deallocate N p q = Inr ?p1"
    using i Cons.prems(1) by (simp add: deallocate_def Let_def)
  have "free_count ?p1 + length qs \<le> N" "\<forall>q \<in> set qs. \<exists>i < N. q = Some i"
    using Cons.prems by simp_all
  from Cons.IH [OF this] show ?case
    using d by simp
qed

lemma allocate_all_enough:
  assumes "length objs \<le> free_count p"
  shows "\<forall>q \<in> set (fst (allocate_all p objs)). q \<noteq> None"
  using assms
proof (induction objs arbitrary: p)
  case Nil
  then show ?case by simp
next
  case (Cons obj objs)
  have pos: "0 < free_count p"
    using Cons.prems by simp
  obtain ptr p1 where a: "allocate p obj = (ptr, p1)"
    by (cases "allocate p obj")
  have f: "ptr \<noteq> None" "free_count p1 = free_count p - 1"
    using a pos by (auto simp: allocate_def Let_def)
  then have "length objs \<le> free_count p1"
    using Cons.prems by simp
  from Cons.IH [OF this] have "\<forall>q \<in> set (fst (allocate_all p1 objs)). q \<noteq> None" .
  then show ?case
    using a f by (simp add: split_beta)
qed

lemma deallocate_inv:
  assumes "pool_inv N p" "deallocate N p ptr = Inr p'"
  shows "pool_inv N p'"
proof (cases ptr)
  case None
  then show ?thesis using assms by (simp add: deallocate_def)
next
  case (Some idx)
  then have idx: "idx < N" and cnt: "free_count p < N"
    and p': "p' = p\<lparr>storage := (storage p)[idx := None],
        allocated := (allocated p)[idx := False],
        free_list := (free_list p)[free_count p := idx], free_count := free_count p + 1\<rparr>"
    using assms(2) by (auto simp: deallocate_def Let_def split: if_splits)
  have "(free_list p)[free_count p := idx] ! i < N" if "i < free_count p + 1" for i
    using that idx cnt assms(1) by (cases "i = free_count p") (auto simp: pool_inv_def)
  then show ?thesis
    using assms(1) cnt by (simp add: p' pool_inv_def)
qed

text \<open>
  C8: for every pool (in a state that satisfies the pool's invariant), every sequence of
  allocations that all succeed, and every order in which the returned pointers are then
  deallocated: no deallocation faults and \<open>available()\<close> is back at its value before the
  allocations. Concretely, a new pool of capacity 100 reports 100 available slots, 50
  allocations in a row all succeed, and after the 50 pointers are deallocated (in any
  order) it reports 100 again.
\<close>

theorem allocate_deallocate_cycle:
  "(pool_inv PoolSize (p :: 'a MemoryPool)
      \<and> (\<forall>q \<in> set (fst (allocate_all p objs)). q \<noteq> None)
      \<and> mset qs = mset (fst (allocate_all p objs))
    \<longrightarrow> (\<exists>p'. deallocate_all PoolSize (snd (allocate_all p objs)) qs = Inr p'
              \<and> available p' = available p))
   \<and> (length (objs50 :: 'a list) = 50
      \<and> mset qs50 = mset (fst (allocate_all (MemoryPool_new 100) objs50))
    \<longrightarrow> available (MemoryPool_new 100 :: 'a MemoryPool) = 100
        \<and> (\<forall>q \<in> set (fst (allocate_all (MemoryPool_new 100) objs50)). q \<noteq> None)
        \<and> (\<exists>p'. deallocate_all 100 (snd (allocate_all (MemoryPool_new 100) objs50)) qs50 = Inr p'
              \<and> available p' = 100))"
proof -
  have cycle: "\<exists>p'. deallocate_all N (snd (allocate_all p objs)) qs = Inr p'
      \<and> available p' = available p"
    if inv: "pool_inv N p"
      and ok: "\<forall>q \<in> set (fst (allocate_all p objs)). q \<noteq> None"
      and perm: "mset qs = mset (fst (allocate_all p objs))"
    for N and p :: "'a MemoryPool" and objs qs
  proof -
    obtain ptrs p1 where a: "allocate_all p objs = (ptrs, p1)"
      by (cases "allocate_all p objs")
    have ok1: "\<forall>q \<in> set ptrs. q \<noteq> None"
      using ok by (simp only: a fst_conv)
    note s = allocate_all_success [OF inv a ok1]
    have cnt: "free_count p1 + length ptrs = free_count p"
      using s by (rule conjunct1)
    have idx: "\<forall>q \<in> set ptrs. \<exists>i < N. q = Some i"
      using s by blast
    have perm1: "mset qs = mset ptrs"
      using perm by (simp only: a fst_conv)
    have sets: "set qs = set ptrs"
      using perm1 by (rule mset_eq_setD)
    have lens: "length qs = length ptrs"
      using perm1 by (rule mset_eq_length)
    have le: "free_count p \<le> N"
      using inv by (simp add: pool_inv_def)
    have 1: "free_count p1 + length qs \<le> N"
      using cnt lens le by linarith
    have 2: "\<forall>q \<in> set qs. \<exists>i < N. q = Some i"
      using idx by (simp only: sets)
    from deallocate_all_count [OF 1 2] obtain p2
      where d: "deallocate_all N p1 qs = Inr p2"
        and c: "free_count p2 = free_count p1 + length qs"
      by blast
    have "free_count p2 = free_count p"
      using c cnt lens by linarith
    then have "deallocate_all N (snd (allocate_all p objs)) qs = Inr p2
        \<and> available p2 = available p"
      using d by (simp add: a available_def)
    then show ?thesis
      by blast
  qed
  have new: "available (MemoryPool_new 100 :: 'a MemoryPool) = 100"
    by (simp add: available_def MemoryPool_new_def)
  have fifty: "\<forall>q \<in> set (fst (allocate_all (MemoryPool_new 100 :: 'a MemoryPool) objs50)). q \<noteq> None"
    if "length objs50 = 50" for objs50 :: "'a list"
    by (rule allocate_all_enough) (simp add: that MemoryPool_new_def)
  have general: "pool_inv PoolSize p
      \<and> (\<forall>q \<in> set (fst (allocate_all p objs)). q \<noteq> None)
      \<and> mset qs = mset (fst (allocate_all p objs))
    \<longrightarrow> (\<exists>p'. deallocate_all PoolSize (snd (allocate_all p objs)) qs = Inr p'
              \<and> available p' = available p)"
    using cycle [of PoolSize p objs qs] by blast
  have concrete: "length objs50 = 50
      \<and> mset qs50 = mset (fst (allocate_all (MemoryPool_new 100) objs50))
    \<longrightarrow> available (MemoryPool_new 100 :: 'a MemoryPool) = 100
        \<and> (\<forall>q \<in> set (fst (allocate_all (MemoryPool_new 100) objs50)). q \<noteq> None)
        \<and> (\<exists>p'. deallocate_all 100 (snd (allocate_all (MemoryPool_new 100) objs50)) qs50 = Inr p'
              \<and> available p' = 100)"
  proof (intro impI, elim conjE)
    assume len: "length objs50 = 50"
      and perm: "mset qs50 = mset (fst (allocate_all (MemoryPool_new 100) objs50))"
    note ok = fifty [OF len]
    from cycle [OF pool_inv_new ok perm] obtain p'
      where "deallocate_all 100 (snd (allocate_all (MemoryPool_new 100) objs50)) qs50 = Inr p'"
        and "available p' = available (MemoryPool_new 100 :: 'a MemoryPool)"
      by blast
    then have "\<exists>p'. deallocate_all 100 (snd (allocate_all (MemoryPool_new 100) objs50)) qs50 = Inr p'
        \<and> available p' = 100"
      using new by auto
    then show "available (MemoryPool_new 100 :: 'a MemoryPool) = 100
        \<and> (\<forall>q \<in> set (fst (allocate_all (MemoryPool_new 100) objs50)). q \<noteq> None)
        \<and> (\<exists>p'. deallocate_all 100 (snd (allocate_all (MemoryPool_new 100) objs50)) qs50 = Inr p'
              \<and> available p' = 100)"
      using new ok by blast
  qed
  show ?thesis
    by (rule conjI [OF general concrete])
qed

theorem allocate_deallocate_cycle_witness:
  "pool_inv 100 (MemoryPool_new 100 :: nat MemoryPool)
   \<and> length (replicate 50 (0::nat)) = 50
   \<and> available (MemoryPool_new 100 :: nat MemoryPool) = 100
   \<and> None \<notin> set (fst (allocate_all (MemoryPool_new 100) (replicate 50 (0::nat))))
   \<and> (\<exists>p'. deallocate_all 100 (snd (allocate_all (MemoryPool_new 100) (replicate 50 (0::nat))))
              (rev (fst (allocate_all (MemoryPool_new 100) (replicate 50 (0::nat))))) = Inr p'
            \<and> available p' = 100)"
proof -
  have l: "length (replicate 50 (0::nat)) = 50"
    by simp
  have m: "mset (rev (fst (allocate_all (MemoryPool_new 100) (replicate 50 (0::nat)))))
      = mset (fst (allocate_all (MemoryPool_new 100) (replicate 50 (0::nat))))"
    by simp
  show ?thesis
    using l m pool_inv_new [of 100]
      allocate_deallocate_cycle [of 100 "MemoryPool_new 100" "replicate 50 (0::nat)"
        "rev (fst (allocate_all (MemoryPool_new 100) (replicate 50 (0::nat))))"
        "replicate 50 (0::nat)"
        "rev (fst (allocate_all (MemoryPool_new 100) (replicate 50 (0::nat))))"]
    by blast
qed

section \<open>Risk-gated order submitter: properties\<close>

lemma check_rate_limit_position:
  "position (snd (check_rate_limit om now_ns)) = position om"
  "notional (snd (check_rate_limit om now_ns)) = notional om"
  "limits (snd (check_rate_limit om now_ns)) = limits om"
  by (simp_all add: check_rate_limit_def update_rate_limiter_def Let_def)

lemma check_rate_limit_False:
  "\<not> fst (check_rate_limit om now_ns)
   \<Longrightarrow> snd (check_rate_limit om now_ns) = update_rate_limiter om now_ns"
  by (simp add: check_rate_limit_def Let_def split: if_splits)

lemma check_rate_limit_True:
  "fst (check_rate_limit om now_ns)
   \<Longrightarrow> snd (check_rate_limit om now_ns) =
       (update_rate_limiter om now_ns)
         \<lparr>orders_this_second := orders_this_second (update_rate_limiter om now_ns) + 1\<rparr>"
  by (simp add: check_rate_limit_def Let_def split: if_splits)

text \<open>
  C2, as stated: a call rejected by any of the four checks leaves position, notional, the
  orders-in-current-second counter and the last-second timestamp unchanged. A new order
  manager with the default limits receives a buy order of 1000 at price 2000 while the wall
  clock reads 1700000000000000000 ns. The size and position checks pass; the rate check
  resets the counter for the new second, stores the clock value and counts the order; the
  notional check then rejects the order (2000000 exceeds 1000000). The counter is 1 instead
  of 0 and the last-second timestamp is the clock value instead of 0.
\<close>

theorem submit_order_rejected_counterexample:
  "fst (submit_order OrderManager_new
          \<lparr>order_symbol = ''SYMBOL'', order_id = 1, order_side = BUY, order_type = LIMIT,
           order_price = Finite 2000, order_quantity = Finite 1000, order_timestamp = 0\<rparr>
          1700000000000000000 accepting_sender) = Inl NOTIONAL_LIMIT
   \<and> orders_this_second OrderManager_new = 0
   \<and> orders_this_second (snd (submit_order OrderManager_new
          \<lparr>order_symbol = ''SYMBOL'', order_id = 1, order_side = BUY, order_type = LIMIT,
           order_price = Finite 2000, order_quantity = Finite 1000, order_timestamp = 0\<rparr>
          1700000000000000000 accepting_sender)) = 1
   \<and> last_second_timestamp OrderManager_new = 0
   \<and> last_second_timestamp (snd (submit_order OrderManager_new
          \<lparr>order_symbol = ''SYMBOL'', order_id = 1, order_side = BUY, order_type = LIMIT,
           order_price = Finite 2000, order_quantity = Finite 1000, order_timestamp = 0\<rparr>
          1700000000000000000 accepting_sender)) = 1700000000000000000"
  by (simp add: submit_order_def check_order_size_def check_position_limit_def
      check_rate_limit_def update_rate_limiter_def check_notional_limit_def
      OrderManager_new_def RiskLimits_default_def Let_def zero_double_def
      less_eq_double_def ONE_SECOND_NS_def rd_int_1000 rd_int_2000000)

text \<open>
  C2, amended: for every call to \<open>submit_order\<close> that is rejected by one of the four risk
  checks, position and cumulative notional are left unchanged. When the rejection is by the
  order-size or the position-limit check, the whole state is unchanged. When it is by the
  rate limit, the counter and the last-second timestamp are as \<open>update_rate_limiter\<close> left
  them: unchanged unless the clock is more than one second past the last-second timestamp,
  in which case the counter is 0 and the timestamp is the clock value. When it is by the
  notional limit, the rate check has already counted the order: the counter is that of
  \<open>update_rate_limiter\<close> plus one.
\<close>

theorem submit_order_rejected:
  assumes "fst (submit_order om order now_ns order_sender) = Inl r"
  shows "position (snd (submit_order om order now_ns order_sender)) = position om
       \<and> notional (snd (submit_order om order now_ns order_sender)) = notional om
       \<and> (r = ORDER_SIZE \<or> r = POSITION_LIMIT
            \<longrightarrow> snd (submit_order om order now_ns order_sender) = om)
       \<and> (r = RATE_LIMIT
            \<longrightarrow> snd (submit_order om order now_ns order_sender) = update_rate_limiter om now_ns)
       \<and> (r = RATE_LIMIT \<and> \<not> ONE_SECOND_NS < now_ns - last_second_timestamp om
            \<longrightarrow> snd (submit_order om order now_ns order_sender) = om)
       \<and> (r = NOTIONAL_LIMIT
            \<longrightarrow> snd (submit_order om order now_ns order_sender) =
                (update_rate_limiter om now_ns)
                  \<lparr>orders_this_second := orders_this_second (update_rate_limiter om now_ns) + 1\<rparr>)"
proof -
  obtain ok om1 where c: "check_rate_limit om now_ns = (ok, om1)"
    by (cases "check_rate_limit om now_ns")
  have p: "position om1 = position om" "notional om1 = notional om"
    using check_rate_limit_position [of om now_ns] c by simp_all
  have f: "\<not> ok \<Longrightarrow> om1 = update_rate_limiter om now_ns"
    using check_rate_limit_False [of om now_ns] c by simp
  have t: "ok \<Longrightarrow> om1 = (update_rate_limiter om now_ns)
      \<lparr>orders_this_second := orders_this_second (update_rate_limiter om now_ns) + 1\<rparr>"
    using check_rate_limit_True [of om now_ns] c by simp
  have u: "\<not> ONE_SECOND_NS < now_ns - last_second_timestamp om
      \<Longrightarrow> update_rate_limiter om now_ns = om"
    by (simp add: update_rate_limiter_def Let_def)
  show ?thesis
    using assms p f t u
    by (auto simp: submit_order_def c Let_def split: if_splits)
qed

theorem submit_order_rejected_witness:
  "fst (submit_order (set_risk_limits OrderManager_new (RiskLimits_default\<lparr>max_order_size := Finite 100\<rparr>))
          \<lparr>order_symbol = ''SYMBOL'', order_id = 1, order_side = BUY, order_type = LIMIT,
           order_price = Finite 100, order_quantity = Finite 101, order_timestamp = 0\<rparr>
          1700000000000000000 accepting_sender) = Inl ORDER_SIZE
   \<and> position (snd (submit_order (set_risk_limits OrderManager_new (RiskLimits_default\<lparr>max_order_size := Finite 100\<rparr>))
          \<lparr>order_symbol = ''SYMBOL'', order_id = 1, order_side = BUY, order_type = LIMIT,
           order_price = Finite 100, order_quantity = Finite 101, order_timestamp = 0\<rparr>
          1700000000000000000 accepting_sender)) = Finite 0
   \<and> snd (submit_order (set_risk_limits OrderManager_new (RiskLimits_default\<lparr>max_order_size := Finite 100\<rparr>))
          \<lparr>order_symbol = ''SYMBOL'', order_id = 1, order_side = BUY, order_type = LIMIT,
           order_price = Finite 100, order_quantity = Finite 101, order_timestamp = 0\<rparr>
          1700000000000000000 accepting_sender)
       = (set_risk_limits OrderManager_new (RiskLimits_default\<lparr>max_order_size := Finite 100\<rparr>))"
proof -
  have rej: "fst (submit_order (set_risk_limits OrderManager_new (RiskLimits_default\<lparr>max_order_size := Finite 100\<rparr>))
          \<lparr>order_symbol = ''SYMBOL'', order_id = 1, order_side = BUY, order_type = LIMIT,
           order_price = Finite 100, order_quantity = Finite 101, order_timestamp = 0\<rparr>
          1700000000000000000 accepting_sender) = Inl ORDER_SIZE"
    by (simp add: submit_order_def check_order_size_def set_risk_limits_def
        OrderManager_new_def RiskLimits_default_def zero_double_def less_eq_double_def)
  have pos: "position (set_risk_limits OrderManager_new (RiskLimits_default\<lparr>max_order_size := Finite 100\<rparr>)) = Finite 0"
    by (simp add: set_risk_limits_def OrderManager_new_def)
  show ?thesis
    using rej pos submit_order_rejected [OF rej]
    by simp
qed

section \<open>Market-making strategy: properties\<close>

lemma calculate_fair_value_eq:
  "calculate_fair_value st mid pos = spec_fair (params st) mid pos"
  by (simp add: calculate_fair_value_def spec_fair_def Let_def uminus_divide_double
      uminus_times_double minus_double_def)

lemma update_quotes_orders:
  assumes "0 < mid_price snapshot" and "\<bar>mm_position st\<bar> < max_position (params st)"
  shows "fst (update_quotes st snapshot t_bid t_ask t_done) =
     (if mm_position st < max_position (params st) * round_double (8 / 10)
      then [\<lparr>order_symbol = ''SYMBOL'', order_id = next_order_id st, order_side = BUY,
             order_type = LIMIT,
             order_price = spec_bid_px (params st)
               (spec_fair (params st) (mid_price snapshot) (mm_position st)),
             order_quantity = quote_size (params st), order_timestamp = t_bid\<rparr>]
      else [])
     @ (if (- max_position (params st)) * round_double (8 / 10) < mm_position st
        then [\<lparr>order_symbol = ''SYMBOL'', order_id = next_order_id st + 1, order_side = SELL,
               order_type = LIMIT,
               order_price = spec_ask_px (params st)
                 (spec_fair (params st) (mid_price snapshot) (mm_position st)),
               order_quantity = quote_size (params st), order_timestamp = t_ask\<rparr>]
        else [])"
proof -
  have m: "\<not> mid_price snapshot \<le> 0"
    using assms(1) double_le_not_less by blast
  have p: "\<not> max_position (params st) \<le> \<bar>mm_position st\<bar>"
    using assms(2) double_le_not_less by blast
  show ?thesis
    using m p
    by (simp add: update_quotes_def Let_def generate_order_id_def calculate_fair_value_eq
        spec_bid_px_def spec_ask_px_def times_commute_double [of "edge (params st)"])
qed

text \<open>The scenario, operation by operation, in binary64.\<close>

lemma scenario_fair:
  assumes "max_position ps = Finite 1000" and "skew_factor ps = Finite (1 / 2)"
  shows "spec_fair ps (Finite 100) (Finite 0) = Finite 100"
  by (simp add: spec_fair_def assms minus_double_def round_double_zero rd_int_1 rd_int_100)

lemma scenario_bid_px:
  assumes "spread_target ps = round_double (2 / 10000)" and "edge ps = round_double (1 / 10000)"
  shows "spec_bid_px ps (Finite 100) = Finite (3517733521441423 / 35184372088832)"
  by (simp add: spec_bid_px_def assms minus_double_def rd_spread_target rd_edge rd_fair_spread
      rd_half rd_fair_minus_half rd_edge_fair rd_bid)

lemma scenario_ask_px:
  assumes "spread_target ps = round_double (2 / 10000)" and "edge ps = round_double (1 / 10000)"
  shows "spec_ask_px ps (Finite 100) = Finite (3519140896324977 / 35184372088832)"
  by (simp add: spec_ask_px_def assms rd_spread_target rd_edge rd_fair_spread
      rd_half rd_fair_plus_half rd_edge_fair rd_ask)

lemma scenario_prices:
  assumes "mid_price snapshot = Finite 100"
    and "spread_target (params st) = round_double (2 / 10000)"
    and "max_position (params st) = Finite 1000"
    and "skew_factor (params st) = Finite (1 / 2)"
    and "edge (params st) = round_double (1 / 10000)"
    and "mm_position st = Finite 0"
  shows "map order_price (fst (update_quotes st snapshot t_bid t_ask t_done))
           = [Finite (3517733521441423 / 35184372088832),
              Finite (3519140896324977 / 35184372088832)]"
    and "map order_side (fst (update_quotes st snapshot t_bid t_ask t_done)) = [BUY, SELL]"
proof -
  have 1: "0 < mid_price snapshot"
    by (simp add: assms(1) zero_double_def)
  have 2: "\<bar>mm_position st\<bar> < max_position (params st)"
    by (simp add: assms)
  note f = scenario_fair [OF assms(3,4)]
  note b = scenario_bid_px [OF assms(2,5)]
  note a = scenario_ask_px [OF assms(2,5)]
  show "map order_price (fst (update_quotes st snapshot t_bid t_ask t_done))
           = [Finite (3517733521441423 / 35184372088832),
              Finite (3519140896324977 / 35184372088832)]"
    unfolding update_quotes_orders [OF 1 2] assms(1,3,6)
    by (simp add: rd_0_8 rd_800 round_double_uminus f b a)
  show "map order_side (fst (update_quotes st snapshot t_bid t_ask t_done)) = [BUY, SELL]"
    unfolding update_quotes_orders [OF 1 2] assms(1,3,6)
    by (simp add: rd_0_8 rd_800 round_double_uminus)
qed

lemma mid_price_100_book:
  "mid_price (get_snapshot (update_ask (update_bid (OrderBook_new ''AAPL'')
          0 (Finite (3199 / 32)) (Finite 500)) 0 (Finite (3201 / 32)) (Finite 400)) 0) = Finite 100"
  by (simp add: mid_price_def best_bid_def best_ask_def get_snapshot_def update_bid_def
      update_ask_def MAX_DEPTH_def update_level_def Let_def OrderBook_new_def Book_init_def
      rd_int_200 rd_int_100)

lemma default_strategy_quotes:
  "fst (update_quotes (MarketMakingStrategy_new Parameters_default)
        (get_snapshot (update_ask (update_bid (OrderBook_new ''AAPL'')
          0 (Finite (3199 / 32)) (Finite 500)) 0 (Finite (3201 / 32)) (Finite 400)) 0) 11 12 13) =
     [\<lparr>order_symbol = ''SYMBOL'', order_id = 1, order_side = BUY, order_type = LIMIT,
          order_price = Finite (3517733521441423 / 35184372088832),
          order_quantity = Finite 100, order_timestamp = 11\<rparr>,
      \<lparr>order_symbol = ''SYMBOL'', order_id = 2, order_side = SELL, order_type = LIMIT,
          order_price = Finite (3519140896324977 / 35184372088832),
          order_quantity = Finite 100, order_timestamp = 12\<rparr>]"
proof -
  have 1: "0 < mid_price (get_snapshot (update_ask (update_bid (OrderBook_new ''AAPL'')
          0 (Finite (3199 / 32)) (Finite 500)) 0 (Finite (3201 / 32)) (Finite 400)) 0)"
    by (simp add: mid_price_100_book zero_double_def)
  have 2: "\<bar>mm_position (MarketMakingStrategy_new Parameters_default)\<bar> < max_position (params (MarketMakingStrategy_new Parameters_default))"
    by (simp add: MarketMakingStrategy_new_def Parameters_default_def)
  have ps: "spread_target Parameters_default = round_double (2 / 10000)"
    "edge Parameters_default = round_double (1 / 10000)"
    "max_position Parameters_default = Finite 1000"
    "skew_factor Parameters_default = Finite (1 / 2)"
    "quote_size Parameters_default = Finite 100"
    by (simp_all add: Parameters_default_def)
  show ?thesis
    unfolding update_quotes_orders [OF 1 2] mid_price_100_book
    by (simp add: MarketMakingStrategy_new_def ps rd_0_8 rd_800 round_double_uminus
        scenario_fair [OF ps(3,4)] scenario_bid_px [OF ps(1,2)] scenario_ask_px [OF ps(1,2)])
qed

text \<open>
  C7, as stated: with \<open>max_position = 1000\<close>, \<open>p = 0\<close>, \<open>mid = 100\<close>,
  \<open>spread_target = 0.0002\<close>, \<open>edge = 0.0001\<close> and \<open>skew_factor = 0.5\<close> the emitted prices are
  99.98 and 100.02. The strategy with the default parameters, on a snapshot with best bid
  99.96875 and best ask 100.03125 (mid 100), emits two orders whose prices are neither the
  reals 99.98 and 100.02 nor the binary64 values nearest to them: the roundings of the
  intermediate results leave the bid one unit in the last place below and the ask one unit
  above.
\<close>

theorem quote_prices_decimal_counterexample:
  "map order_price (fst (update_quotes (MarketMakingStrategy_new Parameters_default)
        (get_snapshot (update_ask (update_bid (OrderBook_new ''AAPL'')
          0 (Finite (3199 / 32)) (Finite 500)) 0 (Finite (3201 / 32)) (Finite 400)) 0) 11 12 13))
     \<noteq> [Finite (9998 / 100), Finite (10002 / 100)]
   \<and> map order_price (fst (update_quotes (MarketMakingStrategy_new Parameters_default)
        (get_snapshot (update_ask (update_bid (OrderBook_new ''AAPL'')
          0 (Finite (3199 / 32)) (Finite 500)) 0 (Finite (3201 / 32)) (Finite 400)) 0) 11 12 13))
     \<noteq> [round_double (9998 / 100), round_double (10002 / 100)]"
  unfolding default_strategy_quotes
  by (simp add: rd_99_98 rd_100_02)

text \<open>
  C7, amended: for every snapshot with \<open>mid > 0\<close> and position \<open>p\<close> with
  \<open>|p| < max_position\<close>, every order that \<open>update_quotes\<close> emits is priced by the
  specification's formulas, each operation evaluated in binary64 arithmetic in the order
  written: a buy order at \<open>bid_px = fair - fair * spread_target / 2 - fair * edge\<close> and a
  sell order at \<open>ask_px = fair + fair * spread_target / 2 + fair * edge\<close>, where
  \<open>fair = mid * (1 - p / max_position * skew_factor)\<close>. With \<open>max_position = 1000\<close>,
  \<open>p = 0\<close>, \<open>mid = 100\<close>, \<open>skew_factor = 0.5\<close> and the binary64 values of the literals
  \<open>0.0002\<close> for \<open>spread_target\<close> and \<open>0.0001\<close> for \<open>edge\<close>, a buy order at
  \<open>3517733521441423 / 2 ^ 45\<close> (99.97999999999999 to sixteen digits) and a sell order at
  \<open>3519140896324977 / 2 ^ 45\<close> (100.02000000000001) are emitted; each price is less than
  \<open>2 ^ -46\<close>, one unit in the last place, away from 99.98 and 100.02.
\<close>

theorem quote_prices:
  "(0 < mid_price snapshot \<and> \<bar>mm_position st\<bar> < max_position (params st)
      \<and> q \<in> set (fst (update_quotes st snapshot t_bid t_ask t_done))
    \<longrightarrow> (order_side q = BUY \<longrightarrow>
           order_price q = spec_bid_px (params st)
             (spec_fair (params st) (mid_price snapshot) (mm_position st)))
        \<and> (order_side q = SELL \<longrightarrow>
           order_price q = spec_ask_px (params st)
             (spec_fair (params st) (mid_price snapshot) (mm_position st))))
   \<and> (mid_price snapshot = Finite 100
      \<and> spread_target (params st) = round_double (2 / 10000)
      \<and> max_position (params st) = Finite 1000
      \<and> skew_factor (params st) = Finite (1 / 2)
      \<and> edge (params st) = round_double (1 / 10000)
      \<and> mm_position st = Finite 0
    \<longrightarrow> map order_price (fst (update_quotes st snapshot t_bid t_ask t_done))
          = [Finite (3517733521441423 / 2 ^ 45), Finite (3519140896324977 / 2 ^ 45)]
        \<and> map order_side (fst (update_quotes st snapshot t_bid t_ask t_done)) = [BUY, SELL])
   \<and> \<bar>3517733521441423 / 2 ^ 45 - 9998 / 100\<bar> < (1 / 2 ^ 46 :: real)
   \<and> \<bar>3519140896324977 / 2 ^ 45 - 10002 / 100\<bar> < (1 / 2 ^ 46 :: real)"
proof -
  have general: "(order_side q = BUY \<longrightarrow>
           order_price q = spec_bid_px (params st)
             (spec_fair (params st) (mid_price snapshot) (mm_position st)))
        \<and> (order_side q = SELL \<longrightarrow>
           order_price q = spec_ask_px (params st)
             (spec_fair (params st) (mid_price snapshot) (mm_position st)))"
    if 1: "0 < mid_price snapshot" and 2: "\<bar>mm_position st\<bar> < max_position (params st)"
      and 3: "q \<in> set (fst (update_quotes st snapshot t_bid t_ask t_done))"
    using 3 unfolding update_quotes_orders [OF 1 2]
    by (auto split: if_splits)
  have v: "(3517733521441423 / 2 ^ 45 :: real) = 3517733521441423 / 35184372088832"
    "(3519140896324977 / 2 ^ 45 :: real) = 3519140896324977 / 35184372088832"
    by simp_all
  have near: "\<bar>3517733521441423 / 2 ^ 45 - 9998 / 100\<bar> < (1 / 2 ^ 46 :: real)"
    "\<bar>3519140896324977 / 2 ^ 45 - 10002 / 100\<bar> < (1 / 2 ^ 46 :: real)"
    by simp_all
  show ?thesis
    unfolding v
    using general scenario_prices [of snapshot st t_bid t_ask t_done] near [unfolded v]
    by blast
qed

theorem quote_prices_witness:
  "0 < mid_price (get_snapshot (update_ask (update_bid (OrderBook_new ''AAPL'')
          0 (Finite (3199 / 32)) (Finite 500)) 0 (Finite (3201 / 32)) (Finite 400)) 0)
   \<and> \<bar>mm_position (MarketMakingStrategy_new Parameters_default)\<bar> < max_position (params (MarketMakingStrategy_new Parameters_default))
   \<and> \<lparr>order_symbol = ''SYMBOL'', order_id = 1, order_side = BUY, order_type = LIMIT,
          order_price = Finite (3517733521441423 / 35184372088832),
          order_quantity = Finite 100, order_timestamp = 11\<rparr>
       \<in> set (fst (update_quotes (MarketMakingStrategy_new Parameters_default)
        (get_snapshot (update_ask (update_bid (OrderBook_new ''AAPL'')
          0 (Finite (3199 / 32)) (Finite 500)) 0 (Finite (3201 / 32)) (Finite 400)) 0) 11 12 13))
   \<and> spec_bid_px (params (MarketMakingStrategy_new Parameters_default))
        (spec_fair (params (MarketMakingStrategy_new Parameters_default))
          (mid_price (get_snapshot (update_ask (update_bid (OrderBook_new ''AAPL'')
          0 (Finite (3199 / 32)) (Finite 500)) 0 (Finite (3201 / 32)) (Finite 400)) 0))
          (mm_position (MarketMakingStrategy_new Parameters_default))) = Finite (3517733521441423 / 35184372088832)
   \<and> map order_price (fst (update_quotes (MarketMakingStrategy_new Parameters_default)
        (get_snapshot (update_ask (update_bid (OrderBook_new ''AAPL'')
          0 (Finite (3199 / 32)) (Finite 500)) 0 (Finite (3201 / 32)) (Finite 400)) 0) 11 12 13))
       = [Finite (3517733521441423 / 35184372088832),
          Finite (3519140896324977 / 35184372088832)]"
proof -
  have 1: "0 < mid_price (get_snapshot (update_ask (update_bid (OrderBook_new ''AAPL'')
          0 (Finite (3199 / 32)) (Finite 500)) 0 (Finite (3201 / 32)) (Finite 400)) 0)"
    by (simp add: mid_price_100_book zero_double_def)
  have 2: "\<bar>mm_position (MarketMakingStrategy_new Parameters_default)\<bar> < max_position (params (MarketMakingStrategy_new Parameters_default))"
    by (simp add: MarketMakingStrategy_new_def Parameters_default_def)
  have 3: "\<lparr>order_symbol = ''SYMBOL'', order_id = 1, order_side = BUY, order_type = LIMIT,
          order_price = Finite (3517733521441423 / 35184372088832),
          order_quantity = Finite 100, order_timestamp = 11\<rparr>
       \<in> set (fst (update_quotes (MarketMakingStrategy_new Parameters_default)
        (get_snapshot (update_ask (update_bid (OrderBook_new ''AAPL'')
          0 (Finite (3199 / 32)) (Finite 500)) 0 (Finite (3201 / 32)) (Finite 400)) 0) 11 12 13))"
    unfolding default_strategy_quotes by simp
  have 4: "map order_price (fst (update_quotes (MarketMakingStrategy_new Parameters_default)
        (get_snapshot (update_ask (update_bid (OrderBook_new ''AAPL'')
          0 (Finite (3199 / 32)) (Finite 500)) 0 (Finite (3201 / 32)) (Finite 400)) 0) 11 12 13))
       = [Finite (3517733521441423 / 35184372088832),
          Finite (3519140896324977 / 35184372088832)]"
    unfolding default_strategy_quotes by simp
  from quote_prices [of "get_snapshot (update_ask (update_bid (OrderBook_new ''AAPL'')
          0 (Finite (3199 / 32)) (Finite 500)) 0 (Finite (3201 / 32)) (Finite 400)) 0"
      "MarketMakingStrategy_new Parameters_default"
      "\<lparr>order_symbol = ''SYMBOL'', order_id = 1, order_side = BUY, order_type = LIMIT,
          order_price = Finite (3517733521441423 / 35184372088832),
          order_quantity = Finite 100, order_timestamp = 11\<rparr>" 11 12 13] 1 2 3
  have 5: "spec_bid_px (params (MarketMakingStrategy_new Parameters_default))
        (spec_fair (params (MarketMakingStrategy_new Parameters_default))
          (mid_price (get_snapshot (update_ask (update_bid (OrderBook_new ''AAPL'')
          0 (Finite (3199 / 32)) (Finite 500)) 0 (Finite (3201 / 32)) (Finite 400)) 0))
          (mm_position (MarketMakingStrategy_new Parameters_default))) = Finite (3517733521441423 / 35184372088832)"
    by simp
  show ?thesis
    using 1 2 3 4 5 by blast
qed

end
